theory Spec2Isabelle
  imports Main "HOL-Library.AList" "HOL-Library.Sublist"
begin

section \<open>Strings of the JavaScript runtime\<close>

text \<open>
  A JavaScript string is modelled as a \<open>string\<close>: a list of 8-bit characters, read as the
  code units U+0000 .. U+00FF. Code units beyond U+00FF are outside the model. Writing a
  string to a file with the utf-8 encoding and reading it back with the same encoding is
  the identity on such strings, so a file's content is the string itself.
\<close>

abbreviation DQ :: char where "DQ \<equiv> CHR 0x22"
abbreviation BSL :: char where "BSL \<equiv> CHR 0x5C"
abbreviation NL :: char where "NL \<equiv> CHR 0x0A"

text \<open>\<open>String.prototype.trim\<close>: the white space and line terminators of ECMAScript that
  are code units below U+0100 are TAB, LF, VT, FF, CR, SP and NBSP.\<close>

definition is_js_space :: "char \<Rightarrow> bool" where
  "is_js_space c = (of_char c \<in> {9, 10, 11, 12, 13, 32, 160 :: int})"

definition js_trim :: "string \<Rightarrow> string" where
  "js_trim s = rev (dropWhile is_js_space (rev (dropWhile is_js_space s)))"

subsection \<open>Decimal numerals\<close>

definition digit_char :: "int \<Rightarrow> char" where
  "digit_char d = char_of (48 + d)"

definition is_digit :: "char \<Rightarrow> bool" where
  "is_digit c = (48 \<le> (of_char c :: int) \<and> (of_char c :: int) \<le> 57)"

definition digit_val :: "char \<Rightarrow> int" where
  "digit_val c = of_char c - 48"

function digits_of :: "int \<Rightarrow> string" where
  "digits_of n = (if n < 10 then [digit_char n] else digits_of (n div 10) @ [digit_char (n mod 10)])"
  by pat_completeness auto
termination
  by (relation "measure nat") auto

declare digits_of.simps [simp del]

definition int_of_digits :: "string \<Rightarrow> int" where
  "int_of_digits ds = foldl (\<lambda>a c. 10 * a + digit_val c) 0 ds"

text \<open>\<open>Number.prototype.toString\<close> on an integer whose magnitude is below \<open>2 ^ 53\<close>.\<close>

definition show_int :: "int \<Rightarrow> string" where
  "show_int i = (if i < 0 then CHR ''-'' # digits_of (- i) else digits_of i)"

section \<open>JSON values, \<open>JSON.stringify\<close> and \<open>JSON.parse\<close>\<close>

text \<open>
  The values that \<open>JSON.parse\<close> returns and \<open>JSON.stringify\<close> accepts. Numbers are the
  integers and the negative zero, which JavaScript keeps apart from \<open>0\<close>; fractions and
  exponents (IEEE doubles) are outside the model. An object is the list of its own
  properties in the order in which JavaScript enumerates them.
\<close>

datatype json =
    JNull
  | JBool bool
  | JNum int
  | JStr string
  | JArr "json list"
  | JObj "(string \<times> json) list"
  | JNegZero

subsection \<open>Property order of an object\<close>

text \<open>
  A property key that is the canonical numeral of an integer below \<open>2 ^ 32 - 1\<close> is an
  array index. An object enumerates its array-index keys first, in ascending order, then
  its other keys in the order of their creation. \<open>obj_put\<close> is \<open>CreateDataProperty\<close>: an
  existing key keeps its place and takes the new value.
\<close>

definition index_of :: "string \<Rightarrow> int option" where
  "index_of k =
     (if k \<noteq> [] \<and> list_all is_digit k \<and> digits_of (int_of_digits k) = k
         \<and> int_of_digits k < 4294967295
      then Some (int_of_digits k) else None)"

definition key_before :: "string \<Rightarrow> string \<Rightarrow> bool" where
  "key_before k k' =
     (case index_of k of
        None \<Rightarrow> False
      | Some i \<Rightarrow> (case index_of k' of None \<Rightarrow> True | Some j \<Rightarrow> i < j))"

fun obj_ins :: "string \<Rightarrow> json \<Rightarrow> (string \<times> json) list \<Rightarrow> (string \<times> json) list" where
  "obj_ins k v [] = [(k, v)]"
| "obj_ins k v (p # ps) = (if key_before k (fst p) then (k, v) # p # ps else p # obj_ins k v ps)"

definition obj_put :: "(string \<times> json) list \<Rightarrow> string \<times> json \<Rightarrow> (string \<times> json) list" where
  "obj_put ps kv =
     (if fst kv \<in> fst ` set ps then AList.update (fst kv) (snd kv) ps
      else obj_ins (fst kv) (snd kv) ps)"

text \<open>The object built by creating the given properties one after the other.\<close>

definition obj_of :: "(string \<times> json) list \<Rightarrow> (string \<times> json) list" where
  "obj_of kvs = foldl obj_put [] kvs"

text \<open>The own enumerable properties that an object spread \<open>{...x}\<close> copies.\<close>

fun own_props :: "json \<Rightarrow> (string \<times> json) list" where
  "own_props (JObj kvs) = kvs"
| "own_props (JArr xs) = zip (map (\<lambda>i. digits_of (int i)) [0 ..< length xs]) xs"
| "own_props (JStr s) = zip (map (\<lambda>i. digits_of (int i)) [0 ..< length s]) (map (\<lambda>c. JStr [c]) s)"
| "own_props _ = []"

text \<open>\<open>{ ...a, ...b }\<close>\<close>

definition spread2 :: "json \<Rightarrow> json \<Rightarrow> json" where
  "spread2 a b = JObj (foldl obj_put (foldl obj_put [] (own_props a)) (own_props b))"

subsection \<open>\<open>JSON.stringify(value, null, gap)\<close>\<close>

definition hex_char :: "int \<Rightarrow> char" where
  "hex_char d = (if d < 10 then char_of (48 + d) else char_of (87 + d))"

text \<open>\<open>QuoteJSONString\<close>, one code unit.\<close>

definition esc_char :: "char \<Rightarrow> string" where
  "esc_char c =
     (let n = (of_char c :: int) in
      if n = 8 then [BSL, CHR ''b'']
      else if n = 9 then [BSL, CHR ''t'']
      else if n = 10 then [BSL, CHR ''n'']
      else if n = 12 then [BSL, CHR ''f'']
      else if n = 13 then [BSL, CHR ''r'']
      else if c = DQ then [BSL, DQ]
      else if c = BSL then [BSL, BSL]
      else if n < 32 then [BSL, CHR ''u'', CHR ''0'', CHR ''0'', hex_char (n div 16), hex_char (n mod 16)]
      else [c])"

definition quote :: "string \<Rightarrow> string" where
  "quote s = DQ # concat (map esc_char s) @ [DQ]"

text \<open>The line break before an item: nothing without a gap, else a line feed and the
  indentation.\<close>

definition nl :: "string \<Rightarrow> string \<Rightarrow> string" where
  "nl gap ind = (if gap = [] then [] else NL # ind)"

definition colon :: "string \<Rightarrow> string" where
  "colon gap = (if gap = [] then '':'' else '': '')"

text \<open>\<open>SerializeJSONProperty\<close> with the gap and the current indentation. The items of a
  non-empty array or object are joined by a comma and the line break.\<close>

fun ser :: "string \<Rightarrow> string \<Rightarrow> json \<Rightarrow> string" where
  "ser gap ind JNull = ''null''"
| "ser gap ind (JBool b) = (if b then ''true'' else ''false'')"
| "ser gap ind (JNum i) = show_int i"
| "ser gap ind JNegZero = ''0''"
| "ser gap ind (JStr s) = quote s"
| "ser gap ind (JArr []) = ''[]''"
| "ser gap ind (JArr (x # xs)) =
     ''['' @ nl gap (ind @ gap) @ ser gap (ind @ gap) x
       @ concat (map (\<lambda>y. '','' @ nl gap (ind @ gap) @ ser gap (ind @ gap) y) xs)
       @ nl gap ind @ '']''"
| "ser gap ind (JObj []) = ''{}''"
| "ser gap ind (JObj (p # ps)) =
     ''{'' @ nl gap (ind @ gap) @ quote (fst p) @ colon gap @ ser gap (ind @ gap) (snd p)
       @ concat (map (\<lambda>q. '','' @ nl gap (ind @ gap) @ quote (fst q) @ colon gap
                              @ ser gap (ind @ gap) (snd q)) ps)
       @ nl gap ind @ ''}''"

text \<open>\<open>JSON.stringify(v, null, 2)\<close> and \<open>JSON.stringify(v)\<close>.\<close>

definition JSON_stringify2 :: "json \<Rightarrow> string" where
  "JSON_stringify2 v = ser ''  '' [] v"

definition JSON_stringify :: "json \<Rightarrow> string" where
  "JSON_stringify v = ser [] [] v"

subsection \<open>\<open>JSON.parse\<close>\<close>

definition is_json_ws :: "char \<Rightarrow> bool" where
  "is_json_ws c = (of_char c \<in> {9, 10, 13, 32 :: int})"

definition skip_ws :: "string \<Rightarrow> string" where
  "skip_ws s = dropWhile is_json_ws s"

definition hex_val :: "char \<Rightarrow> int option" where
  "hex_val c =
     (let n = (of_char c :: int) in
      if 48 \<le> n \<and> n \<le> 57 then Some (n - 48)
      else if 97 \<le> n \<and> n \<le> 102 then Some (n - 87)
      else if 65 \<le> n \<and> n \<le> 70 then Some (n - 55)
      else None)"

definition unescape :: "char \<Rightarrow> char option" where
  "unescape e =
     (if e = DQ then Some DQ
      else if e = BSL then Some BSL
      else if e = CHR ''/'' then Some (CHR ''/'')
      else if e = CHR ''b'' then Some (char_of (8 :: int))
      else if e = CHR ''f'' then Some (char_of (12 :: int))
      else if e = CHR ''n'' then Some (char_of (10 :: int))
      else if e = CHR ''r'' then Some (char_of (13 :: int))
      else if e = CHR ''t'' then Some (char_of (9 :: int))
      else None)"

text \<open>The four hexadecimal digits of a \<open>\u\<close> escape; a code unit beyond U+00FF is outside
  the model and reads as a failure.\<close>

definition hex4 :: "char \<Rightarrow> char \<Rightarrow> char \<Rightarrow> char \<Rightarrow> char option" where
  "hex4 a b c d =
     (case (hex_val a, hex_val b, hex_val c, hex_val d) of
        (Some x, Some y, Some z, Some w) \<Rightarrow>
          (if x = 0 \<and> y = 0 then Some (char_of (16 * z + w)) else None)
      | _ \<Rightarrow> None)"

text \<open>The characters of a string literal after its opening quote, up to the closing
  quote; the result is the string and the rest of the text.\<close>

fun parse_chars :: "string \<Rightarrow> (string \<times> string) option" where
  "parse_chars [] = None"
| "parse_chars (c # r) =
     (if c = DQ then Some ([], r)
      else if c = BSL then
        (case r of
           [] \<Rightarrow> None
         | e # r1 \<Rightarrow>
             if e = CHR ''u'' then
               (case r1 of
                  a # b # c' # d # r2 \<Rightarrow>
                    (case hex4 a b c' d of
                       None \<Rightarrow> None
                     | Some ch \<Rightarrow>
                         (case parse_chars r2 of
                            None \<Rightarrow> None
                          | Some (s, r3) \<Rightarrow> Some (ch # s, r3)))
                | _ \<Rightarrow> None)
             else
               (case unescape e of
                  None \<Rightarrow> None
                | Some ch \<Rightarrow>
                    (case parse_chars r1 of
                       None \<Rightarrow> None
                     | Some (s, r3) \<Rightarrow> Some (ch # s, r3))))
      else if (of_char c :: int) < 32 then None
      else
        (case parse_chars r of
           None \<Rightarrow> None
         | Some (s, r3) \<Rightarrow> Some (c # s, r3)))"

text \<open>A number: an optional minus sign and a decimal numeral without a leading zero;
  \<open>-0\<close> is the negative zero. A fraction and an exponent are outside the model and read
  as a failure.\<close>

definition parse_digits :: "bool \<Rightarrow> string \<Rightarrow> (json \<times> string) option" where
  "parse_digits neg s =
     (let ds = takeWhile is_digit s; rest = dropWhile is_digit s in
      if ds = [] then None
      else if 1 < length ds \<and> hd ds = CHR ''0'' then None
      else if rest \<noteq> [] \<and> hd rest \<in> {CHR ''.'', CHR ''e'', CHR ''E''} then None
      else if neg \<and> int_of_digits ds = 0 then Some (JNegZero, rest)
      else Some (JNum (if neg then - int_of_digits ds else int_of_digits ds), rest))"

definition parse_number :: "string \<Rightarrow> (json \<times> string) option" where
  "parse_number s =
     (case s of
        [] \<Rightarrow> None
      | c # r \<Rightarrow> if c = CHR ''-'' then parse_digits True r else parse_digits False s)"

definition parse_scalar :: "string \<Rightarrow> (json \<times> string) option" where
  "parse_scalar s =
     (case s of
        [] \<Rightarrow> None
      | c # r \<Rightarrow>
          if c = DQ then
            (case parse_chars r of None \<Rightarrow> None | Some (k, r1) \<Rightarrow> Some (JStr k, r1))
          else if prefix ''null'' s then Some (JNull, drop 4 s)
          else if prefix ''true'' s then Some (JBool True, drop 4 s)
          else if prefix ''false'' s then Some (JBool False, drop 5 s)
          else parse_number s)"

text \<open>
  The recursive descent over values. The first argument bounds the number of nested
  calls; every call consumes a character, so the length of the text is enough
  (\<open>JSON_parse\<close> below). \<open>parse_elements\<close> reads what follows an element of an array and
  \<open>parse_members\<close> what follows a member of an object.
\<close>

fun parse_value :: "nat \<Rightarrow> string \<Rightarrow> (json \<times> string) option"
  and parse_elements :: "nat \<Rightarrow> string \<Rightarrow> (json list \<times> string) option"
  and parse_member :: "nat \<Rightarrow> string \<Rightarrow> ((string \<times> json) \<times> string) option"
  and parse_members :: "nat \<Rightarrow> string \<Rightarrow> ((string \<times> json) list \<times> string) option"
where
  "parse_value 0 s = None"
| "parse_value (Suc n) s =
     (case skip_ws s of
        [] \<Rightarrow> None
      | c # r \<Rightarrow>
          if c = CHR ''['' then
            (case skip_ws r of
               [] \<Rightarrow> None
             | c' # r' \<Rightarrow>
                 if c' = CHR '']'' then Some (JArr [], r')
                 else
                   (case parse_value n r of
                      None \<Rightarrow> None
                    | Some (v, r1) \<Rightarrow>
                        (case parse_elements n r1 of
                           None \<Rightarrow> None
                         | Some (vs, r2) \<Rightarrow> Some (JArr (v # vs), r2))))
          else if c = CHR ''{'' then
            (case skip_ws r of
               [] \<Rightarrow> None
             | c' # r' \<Rightarrow>
                 if c' = CHR ''}'' then Some (JObj [], r')
                 else
                   (case parse_member n r of
                      None \<Rightarrow> None
                    | Some (kv, r1) \<Rightarrow>
                        (case parse_members n r1 of
                           None \<Rightarrow> None
                         | Some (kvs, r2) \<Rightarrow> Some (JObj (obj_of (kv # kvs)), r2))))
          else parse_scalar (c # r))"
| "parse_elements 0 s = None"
| "parse_elements (Suc n) s =
     (case skip_ws s of
        [] \<Rightarrow> None
      | c # r \<Rightarrow>
          if c = CHR '','' then
            (case parse_value n r of
               None \<Rightarrow> None
             | Some (v, r1) \<Rightarrow>
                 (case parse_elements n r1 of
                    None \<Rightarrow> None
                  | Some (vs, r2) \<Rightarrow> Some (v # vs, r2)))
          else if c = CHR '']'' then Some ([], r)
          else None)"
| "parse_member 0 s = None"
| "parse_member (Suc n) s =
     (case skip_ws s of
        [] \<Rightarrow> None
      | c # r \<Rightarrow>
          if c = DQ then
            (case parse_chars r of
               None \<Rightarrow> None
             | Some (k, r1) \<Rightarrow>
                 (case skip_ws r1 of
                    [] \<Rightarrow> None
                  | c2 # r2 \<Rightarrow>
                      if c2 = CHR '':'' then
                        (case parse_value n r2 of
                           None \<Rightarrow> None
                         | Some (v, r3) \<Rightarrow> Some ((k, v), r3))
                      else None))
          else None)"
| "parse_members 0 s = None"
| "parse_members (Suc n) s =
     (case skip_ws s of
        [] \<Rightarrow> None
      | c # r \<Rightarrow>
          if c = CHR '','' then
            (case parse_member n r of
               None \<Rightarrow> None
             | Some (kv, r1) \<Rightarrow>
                 (case parse_members n r1 of
                    None \<Rightarrow> None
                  | Some (kvs, r2) \<Rightarrow> Some (kv # kvs, r2)))
          else if c = CHR ''}'' then Some ([], r)
          else None)"

text \<open>\<open>JSON.parse\<close>: one value, then nothing but white space. \<open>None\<close> is the
  \<open>SyntaxError\<close> (or a text outside the model).\<close>

definition JSON_parse :: "string \<Rightarrow> json option" where
  "JSON_parse s =
     (case parse_value (length s) s of
        None \<Rightarrow> None
      | Some (v, r) \<Rightarrow> if skip_ws r = [] then Some v else None)"

section \<open>Paths: the posix \<open>path\<close> module of Node\<close>

fun split_slash :: "string \<Rightarrow> string list" where
  "split_slash [] = [[]]"
| "split_slash (c # s) =
     (if c = CHR ''/'' then [] # split_slash s
      else (case split_slash s of [] \<Rightarrow> [[c]] | seg # segs \<Rightarrow> (c # seg) # segs))"

fun join_slash :: "string list \<Rightarrow> string" where
  "join_slash [] = []"
| "join_slash [s] = s"
| "join_slash (s # t # ts) = s @ CHR ''/'' # join_slash (t # ts)"

text \<open>\<open>normalizeString\<close>: empty and \<open>.\<close> segments are dropped; a \<open>..\<close> segment removes
  the segment before it, unless there is none or it is \<open>..\<close> itself, and then it is kept
  only where the path may climb above its start.\<close>

fun norm_segs :: "bool \<Rightarrow> string list \<Rightarrow> string list \<Rightarrow> string list" where
  "norm_segs climb acc [] = acc"
| "norm_segs climb acc (seg # segs) =
     (if seg = [] \<or> seg = ''.'' then norm_segs climb acc segs
      else if seg = ''..'' then
        (if acc \<noteq> [] \<and> last acc \<noteq> ''..'' then norm_segs climb (butlast acc) segs
         else if climb then norm_segs climb (acc @ [''..'']) segs
         else norm_segs climb acc segs)
      else norm_segs climb (acc @ [seg]) segs)"

definition path_normalize :: "string \<Rightarrow> string" where
  "path_normalize p =
     (if p = [] then ''.''
      else
        let isAbsolute = (hd p = CHR ''/'');
            trailingSeparator = (last p = CHR ''/'');
            q = join_slash (norm_segs (\<not> isAbsolute) [] (split_slash p))
        in if q = [] then (if isAbsolute then ''/'' else if trailingSeparator then ''./'' else ''.'')
           else (if isAbsolute then ''/'' else []) @ q @ (if trailingSeparator then ''/'' else []))"

definition path_join :: "string list \<Rightarrow> string" where
  "path_join args =
     (let joined = join_slash (filter (\<lambda>a. a \<noteq> []) args)
      in if joined = [] then ''.'' else path_normalize joined)"

text \<open>\<open>path.dirname\<close>: trailing slashes are skipped, then the text before the last slash
  is kept; the first character is never taken for that slash.\<close>

definition path_dirname :: "string \<Rightarrow> string" where
  "path_dirname p =
     (if p = [] then ''.''
      else
        let hasRoot = (hd p = CHR ''/'');
            r = dropWhile (\<lambda>c. c \<noteq> CHR ''/'') (dropWhile (\<lambda>c. c = CHR ''/'') (rev (tl p)))
        in if r = [] then (if hasRoot then ''/'' else ''.'')
           else if hasRoot \<and> length r = 1 then ''//''
           else take (length r) p)"

section \<open>The file system\<close>

text \<open>
  A file system is the list of its entries: the absolute path of each file and
  directory, as the list of its components, and what is there. The root directory
  \<open>[]\<close> always exists. Symbolic links, permissions and a full disk are outside the model.
\<close>

type_synonym path = "string list"

datatype node = File string | Dir

type_synonym fsys = "(path \<times> node) list"

datatype error =
    ENOENT
  | EEXIST
  | ENOTDIR
  | EISDIR
  | CopyError
  | FileNotFound string
  | SyntaxError
  | CommandFailed
  | FormatFailed
  | PromptFailed
  | Unmodelled

definition node_at :: "fsys \<Rightarrow> path \<Rightarrow> node option" where
  "node_at fs p = (if p = [] then Some Dir else map_of fs p)"

text \<open>\<open>mkdir\<close> of one directory: the parent is a directory and nothing is at the path.\<close>

definition fs_mkdir :: "path \<Rightarrow> fsys \<Rightarrow> error + fsys" where
  "fs_mkdir p fs =
     (if node_at fs p \<noteq> None then Inl EEXIST
      else
        (case node_at fs (butlast p) of
           None \<Rightarrow> Inl ENOENT
         | Some (File c) \<Rightarrow> Inl ENOTDIR
         | Some Dir \<Rightarrow> Inr (AList.update p Dir fs)))"

text \<open>\<open>mkdir\<close> with \<open>recursive: true\<close>: every missing directory along the path is created;
  a file in the way is an error.\<close>

fun mkdirp_from :: "path \<Rightarrow> path \<Rightarrow> fsys \<Rightarrow> error + fsys" where
  "mkdirp_from pre [] fs = Inr fs"
| "mkdirp_from pre (c # cs) fs =
     (case node_at fs (pre @ [c]) of
        None \<Rightarrow> mkdirp_from (pre @ [c]) cs (AList.update (pre @ [c]) Dir fs)
      | Some (File x) \<Rightarrow> Inl (if cs = [] then EEXIST else ENOTDIR)
      | Some Dir \<Rightarrow> mkdirp_from (pre @ [c]) cs fs)"

definition fs_mkdirp :: "path \<Rightarrow> fsys \<Rightarrow> error + fsys" where
  "fs_mkdirp p fs = mkdirp_from [] p fs"

text \<open>Writing a file creates or replaces it; the parent is a directory and the path is
  not one.\<close>

definition fs_write :: "path \<Rightarrow> string \<Rightarrow> fsys \<Rightarrow> error + fsys" where
  "fs_write p content fs =
     (case node_at fs p of
        Some Dir \<Rightarrow> Inl EISDIR
      | _ \<Rightarrow>
        (case node_at fs (butlast p) of
           None \<Rightarrow> Inl ENOENT
         | Some (File c) \<Rightarrow> Inl ENOTDIR
         | Some Dir \<Rightarrow> Inr (AList.update p (File content) fs)))"

definition fs_read :: "path \<Rightarrow> fsys \<Rightarrow> error + string" where
  "fs_read p fs =
     (case node_at fs p of
        None \<Rightarrow> Inl ENOENT
      | Some Dir \<Rightarrow> Inl EISDIR
      | Some (File c) \<Rightarrow> Inr c)"

subsection \<open>\<open>copySync(src, dest, { overwrite: true })\<close> of fs-extra\<close>

text \<open>The entries below a directory, each with its path relative to the directory.\<close>

definition entries_below :: "path \<Rightarrow> fsys \<Rightarrow> (path \<times> node) list" where
  "entries_below src fs =
     map (\<lambda>e. (drop (length src) (fst e), snd e))
       (filter (\<lambda>e. prefix src (fst e) \<and> fst e \<noteq> src) (AList.clearjunk fs))"

text \<open>One entry is copied to the same relative path below the destination. A directory
  is created where it is missing; a file is written over the file that is there. A file
  where the source has a directory, or a directory where it has a file, is an error.\<close>

fun copy_entries :: "path \<Rightarrow> (path \<times> node) list \<Rightarrow> fsys \<Rightarrow> error + fsys" where
  "copy_entries dst [] fs = Inr fs"
| "copy_entries dst ((r, Dir) # es) fs =
     (case node_at fs (dst @ r) of
        None \<Rightarrow> copy_entries dst es (AList.update (dst @ r) Dir fs)
      | Some (File c) \<Rightarrow> Inl CopyError
      | Some Dir \<Rightarrow> copy_entries dst es fs)"
| "copy_entries dst ((r, File c) # es) fs =
     (case node_at fs (dst @ r) of
        Some Dir \<Rightarrow> Inl CopyError
      | _ \<Rightarrow> copy_entries dst es (AList.update (dst @ r) (File c) fs))"

text \<open>
  The copy of a directory refuses a destination that is the source or lies inside it, as
  fs-extra does. A source inside the destination is outside the model (the copy would
  read what it has just written). A failed copy leaves the files it has already
  written; the model does not say which: it gives the error alone.
\<close>

definition fs_copy :: "path \<Rightarrow> path \<Rightarrow> fsys \<Rightarrow> error + fsys" where
  "fs_copy src dst fs =
     (case node_at fs src of
        None \<Rightarrow> Inl ENOENT
      | Some (File c) \<Rightarrow>
          (if src = dst then Inl CopyError
           else if node_at fs dst = Some Dir then Inl CopyError
           else (case fs_mkdirp (butlast dst) fs of
                   Inl e \<Rightarrow> Inl e
                 | Inr fs1 \<Rightarrow> fs_write dst c fs1))
      | Some Dir \<Rightarrow>
          (if prefix src dst then Inl CopyError
           else if prefix dst src then Inl Unmodelled
           else (case node_at fs dst of
                   Some (File c) \<Rightarrow> Inl CopyError
                 | _ \<Rightarrow>
                   (case fs_mkdirp dst fs of
                      Inl e \<Rightarrow> Inl e
                    | Inr fs1 \<Rightarrow> copy_entries dst (entries_below src fs) fs1))))"

section \<open>The process: working directory, console, child processes\<close>

text \<open>
  What the program does to the outside is recorded in order: each call of the file
  system that changes it, each child process, each line of the console and each prompt.
  An event holds the path the call was made on, resolved; a child process holds its
  command and the directory it runs in. A call whose path string does not resolve
  fails before it reaches the file system and leaves no event.
\<close>

datatype event =
    FsMkdir path
  | FsWrite path
  | FsCopy path path
  | Chdir path
  | Exec string path
  | ConsoleLog string
  | ConsoleWarn string
  | ConsoleError string
  | Prompt

record world =
  files :: fsys
  cwd :: path
  trace :: "event list"

text \<open>
  The collaborators of the program. A child process does what it wants to the files and
  ends with its standard output or with a failure (\<open>None\<close>: it could not be started or
  its exit status was not zero). \<open>prettier.format\<close> returns the formatted text or rejects.
  \<open>select\<close> returns the value of the chosen item or rejects.
\<close>

record env =
  sh :: "string \<Rightarrow> path \<Rightarrow> fsys \<Rightarrow> fsys \<times> string option"
  prettier_format :: "string \<Rightarrow> string option"
  select_answer :: "string option"

text \<open>A computation runs on a world and ends with a value or a thrown error, and the
  world it leaves: nothing is rolled back.\<close>

type_synonym 'a io = "world \<Rightarrow> (error + 'a) \<times> world"

definition io_return :: "'a \<Rightarrow> 'a io" where
  "io_return x w = (Inr x, w)"

definition io_throw :: "error \<Rightarrow> 'a io" where
  "io_throw e w = (Inl e, w)"

definition io_bind :: "'a io \<Rightarrow> ('a \<Rightarrow> 'b io) \<Rightarrow> 'b io" where
  "io_bind m f w = (case m w of (Inl e, w') \<Rightarrow> (Inl e, w') | (Inr x, w') \<Rightarrow> f x w')"

text \<open>Statements one after the other.\<close>

fun steps :: "unit io list \<Rightarrow> unit io" where
  "steps [] = io_return ()"
| "steps (m # ms) = io_bind m (\<lambda>_. steps ms)"

text \<open>\<open>try { m } catch { h }\<close>\<close>

definition try_catch :: "'a io \<Rightarrow> 'a io \<Rightarrow> 'a io" where
  "try_catch m h w = (case m w of (Inl e, w') \<Rightarrow> h w' | (Inr x, w') \<Rightarrow> (Inr x, w'))"

definition emit :: "event \<Rightarrow> unit io" where
  "emit e w = (Inr (), w\<lparr>trace := trace w @ [e]\<rparr>)"

subsection \<open>Paths given to the file system\<close>

text \<open>
  A path string is resolved against the working directory, unless it starts with a
  slash. Empty and \<open>.\<close> segments do not move. A \<open>..\<close> segment is outside the model: the
  call ends with \<open>Unmodelled\<close>. The empty string names nothing.
\<close>

definition resolve :: "path \<Rightarrow> string \<Rightarrow> error + path" where
  "resolve wd s =
     (let segs = filter (\<lambda>x. x \<noteq> [] \<and> x \<noteq> ''.'') (split_slash s)
      in if s = [] then Inl ENOENT
         else if ''..'' \<in> set segs then Inl Unmodelled
         else Inr ((if hd s = CHR ''/'' then [] else wd) @ segs))"

text \<open>A path that ends with a slash or a \<open>.\<close> segment names a directory only.\<close>

definition dirlike :: "string \<Rightarrow> bool" where
  "dirlike s = (s \<noteq> [] \<and> (last s = CHR ''/'' \<or> last (split_slash s) = ''.''))"

definition with_path :: "string \<Rightarrow> (path \<Rightarrow> 'a io) \<Rightarrow> 'a io" where
  "with_path s f w = (case resolve (cwd w) s of Inl e \<Rightarrow> (Inl e, w) | Inr p \<Rightarrow> f p w)"

definition lift_fs :: "(fsys \<Rightarrow> error + fsys) \<Rightarrow> unit io" where
  "lift_fs f w = (case f (files w) of Inl e \<Rightarrow> (Inl e, w) | Inr fs \<Rightarrow> (Inr (), w\<lparr>files := fs\<rparr>))"

subsection \<open>The calls of \<open>fs\<close>, \<open>fs-extra\<close>, \<open>process\<close> and \<open>child_process\<close>\<close>

definition mkdirSync :: "string \<Rightarrow> bool \<Rightarrow> unit io" where
  "mkdirSync s recursive =
     with_path s
       (\<lambda>p. io_bind (emit (FsMkdir p))
              (\<lambda>_. lift_fs (if recursive then fs_mkdirp p else fs_mkdir p)))"

definition ensureDirSync :: "string \<Rightarrow> unit io" where
  "ensureDirSync s = mkdirSync s True"

definition writeFileSync :: "string \<Rightarrow> string \<Rightarrow> unit io" where
  "writeFileSync s content =
     with_path s
       (\<lambda>p. io_bind (emit (FsWrite p))
              (\<lambda>_. if dirlike s then io_throw EISDIR else lift_fs (fs_write p content)))"

definition readFileSync :: "string \<Rightarrow> string io" where
  "readFileSync s =
     with_path s (\<lambda>p w. if dirlike s then (Inl ENOTDIR, w)
                         else (case fs_read p (files w) of Inl e \<Rightarrow> (Inl e, w) | Inr c \<Rightarrow> (Inr c, w)))"

text \<open>\<open>existsSync\<close> never throws. On a path outside the model it ends with \<open>Unmodelled\<close>:
  the model does not say what exists there.\<close>

definition existsSync :: "string \<Rightarrow> bool io" where
  "existsSync s w =
     (case resolve (cwd w) s of
        Inl Unmodelled \<Rightarrow> (Inl Unmodelled, w)
      | Inl e \<Rightarrow> (Inr False, w)
      | Inr p \<Rightarrow>
          (case node_at (files w) p of
             None \<Rightarrow> (Inr False, w)
           | Some Dir \<Rightarrow> (Inr True, w)
           | Some (File c) \<Rightarrow> (Inr (\<not> dirlike s), w)))"

definition copySync :: "string \<Rightarrow> string \<Rightarrow> unit io" where
  "copySync src dst =
     with_path src
       (\<lambda>p. with_path dst
              (\<lambda>q. io_bind (emit (FsCopy p q)) (\<lambda>_. lift_fs (fs_copy p q))))"

definition chdir :: "string \<Rightarrow> unit io" where
  "chdir s =
     with_path s
       (\<lambda>p. io_bind (emit (Chdir p))
              (\<lambda>_ w. if node_at (files w) p = Some Dir then (Inr (), w\<lparr>cwd := p\<rparr>)
                     else (Inl ENOENT, w)))"

text \<open>\<open>execSync(command, { cwd })\<close>: the child runs in the given directory, or in the
  working directory. What it did to the files stays when it fails.\<close>

definition exec_dir :: "string option \<Rightarrow> world \<Rightarrow> error + path" where
  "exec_dir dir w = (case dir of None \<Rightarrow> Inr (cwd w) | Some s \<Rightarrow> resolve (cwd w) s)"

definition run_child :: "env \<Rightarrow> string \<Rightarrow> path \<Rightarrow> string io" where
  "run_child E command d w =
     (if node_at (files w) d \<noteq> Some Dir then (Inl ENOENT, w)
      else
        (case sh E command d (files w) of
           (fs, None) \<Rightarrow> (Inl CommandFailed, w\<lparr>files := fs\<rparr>)
         | (fs, Some out) \<Rightarrow> (Inr out, w\<lparr>files := fs\<rparr>)))"

definition execSync :: "env \<Rightarrow> string \<Rightarrow> string option \<Rightarrow> string io" where
  "execSync E command dir w =
     (case exec_dir dir w of
        Inl e \<Rightarrow> (Inl e, w)
      | Inr d \<Rightarrow> io_bind (emit (Exec command d)) (\<lambda>_. run_child E command d) w)"

text \<open>\<open>execSync\<close> with \<open>stdio: "inherit"\<close>: the output goes to the terminal and the
  result is not used.\<close>

definition execInherit :: "env \<Rightarrow> string \<Rightarrow> string option \<Rightarrow> unit io" where
  "execInherit E command dir = io_bind (execSync E command dir) (\<lambda>_. io_return ())"

section \<open>\<open>src/utils/index.ts\<close>\<close>

datatype repo = Apps | Packages

fun repo_name :: "repo \<Rightarrow> string" where
  "repo_name Apps = ''apps''"
| "repo_name Packages = ''packages''"

text \<open>The pictographs of the messages are written as their utf-8 bytes.\<close>

definition copyCliPackageTemplate :: "string \<Rightarrow> string \<Rightarrow> string \<Rightarrow> repo \<Rightarrow> string \<Rightarrow> unit io" where
  "copyCliPackageTemplate templateType packageName monorepoRoot rp cliRoot =
     (let templateDir = path_join [cliRoot, ''templates'', templateType];
          targetDir = path_join [monorepoRoot, repo_name rp, packageName]
      in steps
        [emit (ConsoleLog ([CHR 0xF0, CHR 0x9F, CHR 0x93, CHR 0x82]
                 @ '' Template Source (CLI Program): '' @ templateDir)),
         emit (ConsoleLog ([CHR 0xF0, CHR 0x9F, CHR 0x93, CHR 0x82]
                 @ '' Target Destination (Monorepo): '' @ targetDir)),
         io_bind (existsSync templateDir)
           (\<lambda>found.
              if \<not> found then
                emit (ConsoleError ([CHR 0xE2, CHR 0x9D, CHR 0x8C]
                        @ '' Template directory not found: '' @ templateDir))
              else
                steps
                  [ensureDirSync targetDir,
                   copySync templateDir targetDir,
                   emit (ConsoleLog ([CHR 0xE2, CHR 0x9C, CHR 0x85] @ '' CLI package '' @ [CHR 0x27]
                           @ packageName @ [CHR 0x27] @ '' created from '' @ [CHR 0x27]
                           @ templateType @ [CHR 0x27] @ '' template.''))])])"

definition utils_getPnpmVersion :: "env \<Rightarrow> string io" where
  "utils_getPnpmVersion E =
     try_catch
       (io_bind (execSync E ''pnpm --version'' None) (\<lambda>out. io_return (js_trim out)))
       (io_bind (emit (ConsoleWarn ''Could not determine pnpm version. Using default.''))
          (\<lambda>_. io_return ''9.15.4''))"

definition writeFile :: "string \<Rightarrow> string \<Rightarrow> unit io" where
  "writeFile filePath content =
     steps [mkdirSync (path_dirname filePath) True, writeFileSync filePath (js_trim content)]"

definition writeJsonFile :: "string \<Rightarrow> json \<Rightarrow> unit io" where
  "writeJsonFile filePath data = writeFile filePath (JSON_stringify2 data)"

definition fileExists :: "string \<Rightarrow> bool io" where
  "fileExists filePath = existsSync filePath"

definition readJsonFile :: "string \<Rightarrow> json io" where
  "readJsonFile filePath =
     io_bind (existsSync filePath)
       (\<lambda>found.
          if \<not> found then io_throw (FileNotFound filePath)
          else io_bind (readFileSync filePath)
                 (\<lambda>s. case JSON_parse s of None \<Rightarrow> io_throw SyntaxError | Some v \<Rightarrow> io_return v))"

definition updateJsonFile :: "string \<Rightarrow> json \<Rightarrow> unit io" where
  "updateJsonFile filePath newData =
     io_bind
       (io_bind (fileExists filePath)
          (\<lambda>found. if found then readJsonFile filePath else io_return (JObj [])))
       (\<lambda>currentData. writeJsonFile filePath (spread2 currentData newData))"

section \<open>\<open>src/index.ts\<close>\<close>

definition getPnpmVersion :: "env \<Rightarrow> string io" where
  "getPnpmVersion E =
     try_catch
       (io_bind (execSync E ''pnpm --version'' None) (\<lambda>out. io_return (js_trim out)))
       (io_bind (emit (ConsoleWarn ''Could not determine pnpm version. Using default.''))
          (\<lambda>_. io_return ''9.7.0''))"

subsection \<open>The texts the program writes\<close>

definition tsupConfig :: string where
  \<open>tsupConfig =
     ''\<newline>''
     @ ''import { defineConfig } from "tsup";\<newline>''
     @ ''\<newline>''
     @ ''export default defineConfig({\<newline>''
     @ ''  entry: ["src/index.ts"],\<newline>''
     @ ''  format: ["esm"],\<newline>''
     @ ''  splitting: false,\<newline>''
     @ ''  sourcemap: true,\<newline>''
     @ ''  clean: true,\<newline>''
     @ ''});\<newline>''\<close>

definition gitignoreContent :: string where
  \<open>gitignoreContent =
     ''\<newline>''
     @ ''# Dependencies\<newline>''
     @ ''node_modules\<newline>''
     @ ''\<newline>''
     @ ''# Builds\<newline>''
     @ ''.next/\<newline>''
     @ ''dist/\<newline>''
     @ ''\<newline>''
     @ ''# Misc\<newline>''
     @ ''.DS_Store\<newline>''
     @ ''*.pem\<newline>''
     @ ''\<newline>''
     @ ''# Debug\<newline>''
     @ ''npm-debug.log*\<newline>''
     @ ''yarn-debug.log*\<newline>''
     @ ''yarn-error.log*\<newline>''
     @ ''\<newline>''
     @ ''# Local env files\<newline>''
     @ ''.env*.local\<newline>''
     @ ''\<newline>''
     @ ''# Turbo\<newline>''
     @ ''.turbo\<newline>''\<close>

definition db_schema_prisma :: string where
  \<open>db_schema_prisma =
     ''\<newline>''
     @ ''// This is your Prisma schema file,\<newline>''
     @ ''// learn more about it in the docs: https://pris.ly/d/prisma-schema\<newline>''
     @ ''\<newline>''
     @ ''generator client {\<newline>''
     @ ''  provider = "prisma-client-js"\<newline>''
     @ ''}\<newline>''
     @ ''\<newline>''
     @ ''datasource db {\<newline>''
     @ ''  provider = "postgresql"\<newline>''
     @ ''  url      = env("DATABASE_URL")\<newline>''
     @ ''}\<newline>''
     @ ''\<newline>''
     @ ''model Post {\<newline>''
     @ ''  id        String   @id @db.VarChar(12)\<newline>''
     @ ''  userId    String   @db.VarChar(12)\<newline>''
     @ ''  user      User     @relation(fields: [userId], references: [id])\<newline>''
     @ ''  content   String   @db.VarChar(240)\<newline>''
     @ ''  createdAt DateTime @default(now()) @map("created_at")\<newline>''
     @ ''  updatedAt DateTime @default(now()) @updatedAt @map("updated_at")\<newline>''
     @ ''\<newline>''
     @ ''  @@map("posts")\<newline>''
     @ ''}\<newline>''
     @ ''\<newline>''
     @ ''model User {\<newline>''
     @ ''  id        String   @id @db.VarChar(12)\<newline>''
     @ ''  username  String   @unique @db.VarChar(32)\<newline>''
     @ ''  name      String   @db.VarChar(32)\<newline>''
     @ ''  createdAt DateTime @default(now()) @map("created_at")\<newline>''
     @ ''  updatedAt DateTime @default(now()) @updatedAt @map("updated_at")\<newline>''
     @ ''\<newline>''
     @ ''  posts Post[]\<newline>''
     @ ''\<newline>''
     @ ''  @@map("users")\<newline>''
     @ ''}\<newline>''\<close>

definition db_util_ts :: string where
  \<open>db_util_ts =
     ''\<newline>''
     @ ''import { customAlphabet } from "nanoid";\<newline>''
     @ ''\<newline>''
     @ ''export const genId = customAlphabet(\<newline>''
     @ ''  "0123456789ABCDEFGHIJKLMNOPQRSTUVWXYZabcdefghijklmnopqrstuvwxyz",\<newline>''
     @ ''  12\<newline>''
     @ '');\<newline>''\<close>

definition db_index_ts :: string where
  \<open>db_index_ts =
     ''\<newline>''
     @ ''export { Prisma, PrismaClient } from "@prisma/client";\<newline>''
     @ ''export type { Post as PostEntity, User as UserEntity } from "@prisma/client";\<newline>''
     @ ''export { db } from "./db";\<newline>''
     @ ''export { genId } from "./util";\<newline>''\<close>

definition db_db_ts :: string where
  \<open>db_db_ts =
     ''\<newline>''
     @ ''import { PrismaClient } from "@prisma/client";\<newline>''
     @ ''\<newline>''
     @ ''declare global {\<newline>''
     @ ''  var prisma: PrismaClient | undefined;\<newline>''
     @ ''}\<newline>''
     @ ''\<newline>''
     @ ''let db: PrismaClient;\<newline>''
     @ ''\<newline>''
     @ ''const isServer =\<newline>''
     @ ''  typeof process !== "undefined" && process.versions && process.versions.node;\<newline>''
     @ ''if (isServer) {\<newline>''
     @ ''  if (process.env.NODE_ENV === "production") {\<newline>''
     @ ''    db = new PrismaClient();\<newline>''
     @ ''  } else {\<newline>''
     @ ''    if (!global.prisma) {\<newline>''
     @ ''      global.prisma = new PrismaClient({\<newline>''
     @ ''        log: ["query", "info", "warn", "error"],\<newline>''
     @ ''      });\<newline>''
     @ ''    }\<newline>''
     @ ''    db = global.prisma;\<newline>''
     @ ''  }\<newline>''
     @ ''}\<newline>''
     @ ''\<newline>''
     @ ''export { db };\<newline>''\<close>

definition queue_index_ts :: string where
  \<open>queue_index_ts =
     ''\<newline>''
     @ ''import { Queue, QueueEvents } from "bullmq";\<newline>''
     @ ''import Redis from "ioredis";\<newline>''
     @ ''\<newline>''
     @ ''const REDIS_URL = process.env.REDIS_URL || "redis://localhost:6379";\<newline>''
     @ ''export const redis = new Redis(REDIS_URL, { maxRetriesPerRequest: null });\<newline>''
     @ ''\<newline>''
     @ ''export const QUEUE_NAME = "queue";\<newline>''
     @ ''export const queue = new Queue(QUEUE_NAME, { connection: redis });\<newline>''
     @ ''\<newline>''
     @ ''export enum JobType {\<newline>''
     @ ''  GeneratePosts = "generate-posts",\<newline>''
     @ ''}\<newline>''
     @ ''\<newline>''
     @ ''export type JobData = {\<newline>''
     @ ''  [JobType.GeneratePosts]: { count: number };\<newline>''
     @ ''};\<newline>''
     @ ''\<newline>''
     @ ''export async function enqueue<T extends JobType>(type: T, data: JobData[T]) {\<newline>''
     @ ''  return queue.add(type, data);\<newline>''
     @ ''}\<newline>''
     @ ''\<newline>''
     @ ''const queueEvents = new QueueEvents(QUEUE_NAME);\<newline>''
     @ ''export async function enqueueAndWait<T extends JobType>(\<newline>''
     @ ''  type: T,\<newline>''
     @ ''  data: JobData[T]\<newline>''
     @ '') {\<newline>''
     @ ''  const job = await enqueue(type, data);\<newline>''
     @ ''  await job.waitUntilFinished(queueEvents);\<newline>''
     @ ''  return job;\<newline>''
     @ ''}\<newline>''\<close>

definition app_tsupConfig :: string where
  \<open>app_tsupConfig =
     ''\<newline>''
     @ ''import { defineConfig } from "tsup";\<newline>''
     @ ''\<newline>''
     @ ''export default defineConfig({\<newline>''
     @ ''  entry: ["src/index.ts"],\<newline>''
     @ ''  format: ["esm"],\<newline>''
     @ ''  splitting: false,\<newline>''
     @ ''  sourcemap: true,\<newline>''
     @ ''});\<newline>''\<close>

definition dockerCompose_head :: string where
  \<open>dockerCompose_head =
     ''\<newline>''
     @ ''services:\<newline>''
     @ ''  postgres:\<newline>''
     @ ''    image: postgres:16\<newline>''
     @ ''    environment:\<newline>''
     @ ''      POSTGRES_USER: postgres\<newline>''
     @ ''      POSTGRES_PASSWORD: postgres\<newline>''
     @ ''      POSTGRES_DB: ''\<close>

definition dockerCompose_tail :: string where
  \<open>dockerCompose_tail =
     ''_dev\<newline>''
     @ ''    ports:\<newline>''
     @ ''      - "5432:5432"\<newline>''
     @ ''    volumes:\<newline>''
     @ ''      - /var/lib/postgresql/data\<newline>''
     @ ''\<newline>''
     @ ''  redis:\<newline>''
     @ ''    image: redis:6.2-alpine\<newline>''
     @ ''    ports:\<newline>''
     @ ''      - "6379:6379"\<newline>''\<close>

subsection \<open>\<open>createPackage\<close>\<close>

definition str_props :: "(string \<times> string) list \<Rightarrow> (string \<times> json) list" where
  "str_props kvs = map (\<lambda>kv. (fst kv, JStr (snd kv))) kvs"

text \<open>The manifest of a package; the scripts of the options are spread over the three
  default scripts.\<close>

definition package_manifest :: "string \<Rightarrow> (string \<times> string) list option \<Rightarrow> json" where
  \<open>package_manifest packageName scripts =
     JObj
       [(''name'', JStr (''@repo/'' @ packageName)),
        (''private'', JBool True),
        (''type'', JStr ''module''),
        (''exports'',
           JObj [(''.'', JObj [(''types'', JStr ''./src/index.ts''),
                               (''default'', JStr ''./dist/index.js'')])]),
        (''scripts'',
           JObj (foldl obj_put
                   [(''build'', JStr ''tsup --clean''),
                    (''check-types'', JStr ''tsc --noEmit''),
                    (''dev'', JStr ''tsup --watch'')]
                   (case scripts of None \<Rightarrow> [] | Some kvs \<Rightarrow> str_props kvs)))]\<close>

definition package_tsConfig :: json where
  \<open>package_tsConfig =
     JObj
       [(''extends'', JStr ''@repo/typescript-config/base.json''),
        (''compilerOptions'', JObj [(''outDir'', JStr ''./dist'')]),
        (''include'', JArr [JStr ''src/**/*'']),
        (''exclude'', JArr [JStr ''node_modules''])]\<close>

definition write_package_file :: "string \<Rightarrow> string \<times> string \<Rightarrow> unit io" where
  "write_package_file packageDir entry =
     (let fullPath = path_join [packageDir, fst entry]
      in steps [mkdirSync (path_dirname fullPath) True, writeFileSync fullPath (snd entry)])"

definition createPackage ::
  "env \<Rightarrow> string \<Rightarrow> (string \<times> string) list \<Rightarrow> (string \<times> string) list option \<Rightarrow> unit io" where
  "createPackage E packageName pkg_files scripts =
     (let packageDir = path_join [''packages'', packageName]
      in steps
        ([mkdirSync packageDir True,
          mkdirSync (path_join [packageDir, ''src'']) False,
          writeFileSync (path_join [packageDir, ''package.json''])
            (JSON_stringify2 (package_manifest packageName scripts)),
          writeFileSync (path_join [packageDir, ''tsconfig.json''])
            (JSON_stringify2 package_tsConfig),
          writeFileSync (path_join [packageDir, ''tsup.config.ts'']) tsupConfig]
         @ map (write_package_file packageDir) pkg_files
         @ [emit (ConsoleLog (''Installing dependencies for '' @ packageName @ '' package...'')),
            execInherit E ''pnpm add -D tsup typescript @repo/typescript-config@workspace:*''
              (Some packageDir)]))"

subsection \<open>\<open>initializeMonorepo\<close>\<close>

definition root_manifest :: "string \<Rightarrow> string \<Rightarrow> json" where
  \<open>root_manifest appName pnpmVersion =
     JObj
       [(''name'', JStr appName),
        (''private'', JBool True),
        (''packageManager'', JStr (''pnpm@'' @ pnpmVersion)),
        (''scripts'',
           JObj [(''build'', JStr ''turbo run build''),
                 (''dev'', JStr ''turbo run dev''),
                 (''lint'', JStr ''turbo run lint''),
                 (''check-types'', JStr ''turbo run check-types''),
                 (''test'', JStr ''turbo run test'')]),
        (''devDependencies'', JObj [(''turbo'', JStr ''latest'')])]\<close>

definition turboConfig :: json where
  \<open>turboConfig =
     JObj
       [(''$schema'', JStr ''https://turbo.build/schema.json''),
        (''ui'', JStr ''tui''),
        (''tasks'',
           JObj
             [(''build'',
                 JObj [(''dependsOn'', JArr [JStr ''^build'']),
                       (''inputs'', JArr [JStr ''$TURBO_DEFAULT$'', JStr ''.env*'']),
                       (''outputs'', JArr [JStr ''.next/**'', JStr ''!.next/cache/**'', JStr ''dist/**''])]),
              (''check-types'', JObj [(''dependsOn'', JArr [JStr ''^check-types''])]),
              (''dev'', JObj [(''cache'', JBool False), (''persistent'', JBool True)]),
              (''test'', JObj [(''cache'', JBool False), (''persistent'', JBool True)])])]\<close>

definition tsConfigPackageJson :: json where
  \<open>tsConfigPackageJson =
     JObj
       [(''name'', JStr ''@repo/typescript-config''),
        (''version'', JStr ''1.0.0''),
        (''private'', JBool True),
        (''license'', JStr ''MIT''),
        (''publishConfig'', JObj [(''access'', JStr ''public'')])]\<close>

definition tsConfigBase :: json where
  \<open>tsConfigBase =
     JObj
       [(''$schema'', JStr ''https://json.schemastore.org/tsconfig''),
        (''extends'', JStr ''@tsconfig/node20/tsconfig.json''),
        (''compilerOptions'',
           JObj [(''module'', JStr ''ESNext''), (''moduleResolution'', JStr ''Bundler'')])]\<close>

text \<open>\<open>appName.replace(/-/g, "_")\<close>\<close>

definition hyphens_to_underscores :: "string \<Rightarrow> string" where
  "hyphens_to_underscores s = map (\<lambda>c. if c = CHR ''-'' then CHR ''_'' else c) s"

definition dockerComposeConfig :: "string \<Rightarrow> string" where
  "dockerComposeConfig appName =
     dockerCompose_head @ hyphens_to_underscores appName @ dockerCompose_tail"

definition dockerDevPackageJson :: json where
  \<open>dockerDevPackageJson =
     JObj
       [(''name'', JStr ''@repo/docker-dev''),
        (''private'', JBool True),
        (''scripts'',
           JObj [(''dev'', JStr ''docker compose up''),
                 (''db:reset'',
                    JStr ''docker compose rm --force --stop postgres && docker compose up -d'')]),
        (''devDependencies'', JObj [(''typescript'', JStr ''^5.5.4'')])]\<close>

definition db_files :: "(string \<times> string) list" where
  "db_files =
     [(''prisma/schema.prisma'', db_schema_prisma),
      (''src/util.ts'', db_util_ts),
      (''src/index.ts'', db_index_ts),
      (''src/db.ts'', db_db_ts)]"

definition db_scripts :: "(string \<times> string) list" where
  \<open>db_scripts =
     [(''build'', ''pnpm build:prisma && tsup --clean''),
      (''build:prisma'', ''prisma generate''),
      (''check-types'', ''tsc --noEmit''),
      (''dev'', ''tsup --watch''),
      (''migrate'', ''prisma migrate''),
      (''push'', ''prisma db push'')]\<close>

text \<open>The parts of \<open>initializeMonorepo\<close>, in the order of the source.\<close>

definition init_root :: "string \<Rightarrow> unit io" where
  \<open>init_root appName =
     steps
       [mkdirSync appName False,
        chdir appName,
        writeFileSync ''pnpm-workspace.yaml''
          (''packages:\<newline>  - "apps/*"\<newline>  - "packages/*"\<newline>''),
        mkdirSync ''apps'' False,
        mkdirSync ''packages'' False]\<close>

definition init_package_json :: "env \<Rightarrow> string \<Rightarrow> unit io" where
  "init_package_json E appName =
     io_bind (getPnpmVersion E)
       (\<lambda>pnpmVersion.
          writeFileSync ''package.json'' (JSON_stringify2 (root_manifest appName pnpmVersion)))"

definition install_types_node :: "env \<Rightarrow> unit io" where
  "install_types_node E =
     steps
       [emit (ConsoleLog ''Installing @types/node...''),
        execInherit E ''pnpm add -w -D @types/node'' None]"

definition create_turbo_json :: "env \<Rightarrow> unit io" where
  "create_turbo_json E =
     (case prettier_format E (JSON_stringify turboConfig) of
        None \<Rightarrow> io_throw FormatFailed
      | Some formattedTurboConfig \<Rightarrow> writeFileSync ''turbo.json'' formattedTurboConfig)"

definition init_typescript_config :: "env \<Rightarrow> unit io" where
  "init_typescript_config E =
     steps
       [mkdirSync ''packages/typescript-config'' True,
        writeFileSync ''packages/typescript-config/package.json''
          (JSON_stringify2 tsConfigPackageJson),
        emit (ConsoleLog ''Installing latest @tsconfig/node20...''),
        execInherit E ''pnpm add -D @tsconfig/node20'' (Some ''packages/typescript-config''),
        writeFileSync ''packages/typescript-config/base.json'' (JSON_stringify2 tsConfigBase)]"

definition init_docker_dev :: "string \<Rightarrow> unit io" where
  "init_docker_dev appName =
     steps
       [mkdirSync ''packages/docker-dev'' False,
        writeFileSync ''packages/docker-dev/compose.yml'' (dockerComposeConfig appName),
        writeFileSync ''packages/docker-dev/package.json''
          (JSON_stringify2 dockerDevPackageJson)]"

definition init_gitignore_and_install :: "env \<Rightarrow> unit io" where
  "init_gitignore_and_install E =
     steps
       [writeFileSync ''.gitignore'' (js_trim gitignoreContent),
        emit (ConsoleLog ''Installing dependencies...''),
        execInherit E ''pnpm install'' None]"

definition init_db_package :: "env \<Rightarrow> unit io" where
  "init_db_package E =
     (let dbDir = path_join [''packages'', ''db'']
      in steps
        [createPackage E ''db'' db_files (Some db_scripts),
         emit (ConsoleLog ''Installing additional dependencies for db package...''),
         execInherit E ''pnpm add @prisma/client nanoid'' (Some dbDir),
         execInherit E ''pnpm add -D prisma'' (Some dbDir)])"

definition init_queue_package :: "env \<Rightarrow> unit io" where
  "init_queue_package E =
     steps
       [createPackage E ''queue'' [(''src/index.ts'', queue_index_ts)] None,
        emit (ConsoleLog ''Installing additional dependencies for queue package...''),
        execInherit E ''pnpm add bullmq ioredis'' (Some (path_join [''packages'', ''queue'']))]"

definition initializeMonorepo :: "env \<Rightarrow> string \<Rightarrow> unit io" where
  "initializeMonorepo E appName =
     steps
       [init_root appName,
        init_package_json E appName,
        install_types_node E,
        create_turbo_json E,
        init_typescript_config E,
        init_docker_dev appName,
        init_gitignore_and_install E,
        init_db_package E,
        init_queue_package E,
        emit (ConsoleLog (''Monorepo '' @ appName @ '' initialized successfully!''))]"

subsection \<open>\<open>initializeApp\<close> and the \<open>app\<close> command\<close>

definition node_app_manifest :: "string \<Rightarrow> json" where
  \<open>node_app_manifest name =
     JObj
       [(''name'', JStr (''@repo/'' @ name)),
        (''private'', JBool True),
        (''type'', JStr ''module''),
        (''scripts'',
           JObj [(''build'', JStr ''tsup --clean''),
                 (''check-types'', JStr ''tsc --noEmit''),
                 (''dev'', JStr (''tsup --watch --onSuccess '' @ [CHR 0x27] @ ''pnpm start'' @ [CHR 0x27])),
                 (''start'', JStr ''node dist/index.js'')])]\<close>

definition greeting :: string where
  \<open>greeting = ''console.log("Hello, World!");''\<close>

text \<open>\<open>if (!type) { type = await select(...) }\<close>: the undefined and the empty string are
  falsy.\<close>

definition resolve_type :: "env \<Rightarrow> string option \<Rightarrow> string io" where
  "resolve_type E app_type =
     (case app_type of
        Some t \<Rightarrow>
          if t \<noteq> [] then io_return t
          else io_bind (emit Prompt)
                 (\<lambda>_. case select_answer E of None \<Rightarrow> io_throw PromptFailed | Some a \<Rightarrow> io_return a)
      | None \<Rightarrow>
          io_bind (emit Prompt)
            (\<lambda>_. case select_answer E of None \<Rightarrow> io_throw PromptFailed | Some a \<Rightarrow> io_return a))"

definition next_app :: "env \<Rightarrow> string \<Rightarrow> unit io" where
  "next_app E appDir =
     steps
       [execInherit E
          (''npx create-next-app@latest '' @ appDir @ '' --typescript --eslint --use-pnpm'') None,
        emit (ConsoleLog ''Installing @repo/db package...''),
        execInherit E ''pnpm add @repo/db@workspace:*'' (Some appDir)]"

definition node_app :: "env \<Rightarrow> string \<Rightarrow> string \<Rightarrow> unit io" where
  "node_app E name appDir =
     steps
       [writeFileSync (path_join [appDir, ''package.json''])
          (JSON_stringify2 (node_app_manifest name)),
        writeFileSync (path_join [appDir, ''tsup.config.ts'']) app_tsupConfig,
        writeFileSync (path_join [appDir, ''tsconfig.json''])
          (JSON_stringify2 (JObj [(''extends'', JStr ''@repo/typescript-config/base.json'')])),
        mkdirSync (path_join [appDir, ''src'']) False,
        writeFileSync (path_join [appDir, ''src'', ''index.ts'']) greeting,
        emit (ConsoleLog ''Installing dependencies for the Node.js app...''),
        execInherit E ''pnpm add @repo/typescript-config@workspace:*'' (Some appDir),
        execInherit E ''pnpm add -D tsup typescript'' (Some appDir)]"

definition initializeApp :: "env \<Rightarrow> string \<Rightarrow> string option \<Rightarrow> unit io" where
  "initializeApp E name app_type =
     io_bind (resolve_type E app_type)
       (\<lambda>t. let appDir = path_join [''apps'', name]
             in steps
               [mkdirSync appDir True,
                if t = ''next'' then next_app E appDir
                else if t = ''node'' then node_app E name appDir
                else io_return (),
                emit (ConsoleLog (''App '' @ name @ '' initialized successfully!''))])"

text \<open>The options of the \<open>app\<close> command: a flag is \<open>true\<close> when given.\<close>

record app_options =
  opt_next :: bool
  opt_node :: bool

definition app_action :: "env \<Rightarrow> string \<Rightarrow> app_options \<Rightarrow> unit io" where
  "app_action E name options =
     (let app_type = (if opt_next options then Some ''next''
                      else if opt_node options then Some ''node''
                      else None)
      in initializeApp E name app_type)"

section \<open>Predicates used in the statements\<close>

text \<open>What may follow a value inside a serialised text: nothing, a comma, a closing
  bracket or brace, or a line feed.\<close>

definition delim :: "string \<Rightarrow> bool" where
  "delim rest = (case rest of [] \<Rightarrow> True | c # _ \<Rightarrow> c \<in> {CHR '','', CHR '']'', CHR ''}'', NL})"

text \<open>A string of spaces: the gap and the indentation of a serialised text.\<close>

definition blank :: "string \<Rightarrow> bool" where
  "blank s = (\<forall>c \<in> set s. c = CHR '' '')"

text \<open>The property list of an object as JavaScript holds it: no key twice, the
  array-index keys first and ascending.\<close>

fun obj_ok :: "(string \<times> json) list \<Rightarrow> bool" where
  "obj_ok [] = True"
| "obj_ok (p # ps) =
     (fst p \<notin> fst ` set ps \<and> (\<forall>q \<in> set ps. \<not> key_before (fst q) (fst p)) \<and> obj_ok ps)"

text \<open>A value of the model that a JavaScript program can hold and that is written as
  it is: every object has its properties in order and every number is a safe integer,
  which prints as its decimal numeral. The negative zero is left out: \<open>JSON.stringify\<close>
  writes it as \<open>0\<close>.\<close>

fun wf_json :: "json \<Rightarrow> bool" where
  "wf_json (JNum i) = (- 9007199254740992 < i \<and> i < 9007199254740992)"
| "wf_json JNegZero = False"
| "wf_json (JArr xs) = (\<forall>x \<in> set xs. wf_json x)"
| "wf_json (JObj kvs) = (obj_ok kvs \<and> (\<forall>q \<in> set kvs. wf_json (snd q)))"
| "wf_json _ = True"


subsection \<open>What a computation lets be seen\<close>

text \<open>The events a run added to the record.\<close>

definition new_events :: "world \<Rightarrow> world \<Rightarrow> event list" where
  "new_events w w' = drop (length (trace w)) (trace w')"

text \<open>Whatever the world and however the run ends, the computation only adds events,
  and each of them satisfies \<open>P\<close>.\<close>

definition emits_only :: "(event \<Rightarrow> bool) \<Rightarrow> 'a io \<Rightarrow> bool" where
  "emits_only P m = (\<forall>w. \<exists>t. trace (snd (m w)) = trace w @ t \<and> (\<forall>e \<in> set t. P e))"

text \<open>In the working directory \<open>C\<close>, however the run ends, the computation stays in \<open>C\<close>
  and only adds events that satisfy \<open>P\<close>.\<close>

definition emits_in :: "path \<Rightarrow> (event \<Rightarrow> bool) \<Rightarrow> 'a io \<Rightarrow> bool" where
  "emits_in C P m =
     (\<forall>w. cwd w = C \<longrightarrow>
        cwd (snd (m w)) = C \<and> (\<exists>t. trace (snd (m w)) = trace w @ t \<and> (\<forall>e \<in> set t. P e)))"

text \<open>In the working directory \<open>C\<close>, a run that returns has stayed in \<open>C\<close> and has added
  exactly the events \<open>L\<close>.\<close>

definition emits_exactly :: "path \<Rightarrow> 'a io \<Rightarrow> event list \<Rightarrow> bool" where
  "emits_exactly C m L =
     (\<forall>w x w'. cwd w = C \<longrightarrow> m w = (Inr x, w') \<longrightarrow> cwd w' = C \<and> trace w' = trace w @ L)"

subsection \<open>The package units of a workspace\<close>

text \<open>The path an event is about: the directory made, the file written, the destination
  of a copy, the directory a child process runs in.\<close>

fun event_path :: "event \<Rightarrow> path option" where
  "event_path (FsMkdir p) = Some p"
| "event_path (FsWrite p) = Some p"
| "event_path (FsCopy p q) = Some q"
| "event_path (Exec c d) = Some d"
| "event_path _ = None"

text \<open>An event is a step of the package unit \<open>u\<close> of the workspace at \<open>root\<close> when its
  path is the directory of the unit or lies below it.\<close>

definition in_unit :: "path \<Rightarrow> string \<Rightarrow> event \<Rightarrow> bool" where
  "in_unit root u e =
     (case event_path e of None \<Rightarrow> False | Some p \<Rightarrow> prefix (root @ [''packages'', u]) p)"

text \<open>The steps that realize the data-access unit, in order: its directories, its
  manifest and configuration, its source files, its three installs.\<close>

definition db_steps :: "path \<Rightarrow> event list" where
  "db_steps root =
     (let d = root @ [''packages'', ''db''] in
      [FsMkdir d,
       FsMkdir (d @ [''src'']),
       FsWrite (d @ [''package.json'']),
       FsWrite (d @ [''tsconfig.json'']),
       FsWrite (d @ [''tsup.config.ts'']),
       FsMkdir (d @ [''prisma'']),
       FsWrite (d @ [''prisma'', ''schema.prisma'']),
       FsMkdir (d @ [''src'']),
       FsWrite (d @ [''src'', ''util.ts'']),
       FsMkdir (d @ [''src'']),
       FsWrite (d @ [''src'', ''index.ts'']),
       FsMkdir (d @ [''src'']),
       FsWrite (d @ [''src'', ''db.ts'']),
       Exec ''pnpm add -D tsup typescript @repo/typescript-config@workspace:*'' d,
       Exec ''pnpm add @prisma/client nanoid'' d,
       Exec ''pnpm add -D prisma'' d])"

text \<open>The steps that realize the task-queue unit.\<close>

definition queue_steps :: "path \<Rightarrow> event list" where
  "queue_steps root =
     (let d = root @ [''packages'', ''queue''] in
      [FsMkdir d,
       FsMkdir (d @ [''src'']),
       FsWrite (d @ [''package.json'']),
       FsWrite (d @ [''tsconfig.json'']),
       FsWrite (d @ [''tsup.config.ts'']),
       FsMkdir (d @ [''src'']),
       FsWrite (d @ [''src'', ''index.ts'']),
       Exec ''pnpm add -D tsup typescript @repo/typescript-config@workspace:*'' d,
       Exec ''pnpm add bullmq ioredis'' d])"

text \<open>The events that a run of \<open>initializeMonorepo\<close> adds to the record.\<close>

definition init_events :: "env \<Rightarrow> string \<Rightarrow> world \<Rightarrow> event list" where
  "init_events E appName w = new_events w (snd (initializeMonorepo E appName w))"

subsection \<open>What a run leaves in the files\<close>







text \<open>Partial correctness of a computation: a run that starts where \<open>P\<close> holds and returns
  ends where \<open>Q\<close> holds.\<close>

definition hoare :: "(world \<Rightarrow> bool) \<Rightarrow> 'a io \<Rightarrow> (world \<Rightarrow> bool) \<Rightarrow> bool" where
  "hoare P m Q = (\<forall>w x w'. P w \<longrightarrow> m w = (Inr x, w') \<longrightarrow> Q w')"

text \<open>The working directory is \<open>C\<close> and the files satisfy \<open>I\<close>.\<close>

definition in_dir :: "path \<Rightarrow> (fsys \<Rightarrow> bool) \<Rightarrow> world \<Rightarrow> bool" where
  "in_dir C I w = (cwd w = C \<and> I (files w))"

text \<open>Two collaborators for the examples: one whose package manager answers, one whose
  every command fails. Neither touches the files.\<close>

definition env_ok :: env where
  "env_ok =
     \<lparr>sh = (\<lambda>c d fs. (fs, if c = ''pnpm --version'' then Some '' 9.1.0\<newline>'' else Some [])),
      prettier_format = (\<lambda>s. Some s),
      select_answer = Some ''node''\<rparr>"

definition env_fail :: env where
  "env_fail =
     \<lparr>sh = (\<lambda>c d fs. (fs, None)),
      prettier_format = (\<lambda>s. None),
      select_answer = None\<rparr>"

definition world0 :: world where
  "world0 = \<lparr>files = [], cwd = [], trace = []\<rparr>"

text \<open>A world for the examples of the template copy: the generator is installed in
  \<open>/cli\<close> with one template, and the workspace \<open>/mono\<close> has a package \<open>db\<close> already.\<close>

definition world_tpl :: world where
  "world_tpl =
     \<lparr>files =
        [([''cli''], Dir),
         ([''cli'', ''templates''], Dir),
         ([''cli'', ''templates'', ''db''], Dir),
         ([''cli'', ''templates'', ''db'', ''a.ts''], File ''A''),
         ([''cli'', ''templates'', ''db'', ''src''], Dir),
         ([''cli'', ''templates'', ''db'', ''src'', ''i.ts''], File ''I''),
         ([''mono''], Dir),
         ([''mono'', ''packages''], Dir),
         ([''mono'', ''packages'', ''db''], Dir),
         ([''mono'', ''packages'', ''db'', ''a.ts''], File ''old''),
         ([''mono'', ''packages'', ''db'', ''keep''], File ''K'')],
      cwd = [''mono''],
      trace = []\<rparr>"


text \<open>The characters a serialised value can start with.\<close>

definition starter :: "char \<Rightarrow> bool" where
  "starter c = (c \<in> {CHR ''n'', CHR ''t'', CHR ''f'', CHR ''-'', DQ, CHR ''['', CHR ''{''} \<or> is_digit c)"

section \<open>Decimal numerals and string literals are read back\<close>

lemma of_char_digit_char: "0 \<le> d \<Longrightarrow> d < 10 \<Longrightarrow> (of_char (digit_char d) :: int) = 48 + d"
  by (simp add: digit_char_def of_char_of)

lemma is_digit_digit_char: "0 \<le> d \<Longrightarrow> d < 10 \<Longrightarrow> is_digit (digit_char d)"
  by (simp add: is_digit_def of_char_digit_char)

lemma digit_val_digit_char: "0 \<le> d \<Longrightarrow> d < 10 \<Longrightarrow> digit_val (digit_char d) = d"
  by (simp add: digit_val_def of_char_digit_char)

lemma digits_of_not_Nil: "digits_of n \<noteq> []"
  by (subst digits_of.simps) simp

lemma digits_of_all_digits: "0 \<le> n \<Longrightarrow> list_all is_digit (digits_of n)"
proof (induction n rule: digits_of.induct)
  case (1 n)
  show ?case
  proof (cases "n < 10")
    case True
    with 1 show ?thesis by (subst digits_of.simps) (simp add: is_digit_digit_char)
  next
    case False
    with 1 have "list_all is_digit (digits_of (n div 10))" by simp
    moreover have "is_digit (digit_char (n mod 10))" by (simp add: is_digit_digit_char)
    ultimately show ?thesis using False by (subst digits_of.simps) simp
  qed
qed

lemma int_of_digits_snoc: "int_of_digits (ds @ [c]) = 10 * int_of_digits ds + digit_val c"
  by (simp add: int_of_digits_def)

lemma int_of_digits_digits_of: "0 \<le> n \<Longrightarrow> int_of_digits (digits_of n) = n"
proof (induction n rule: digits_of.induct)
  case (1 n)
  show ?case
  proof (cases "n < 10")
    case True
    with 1 show ?thesis
      by (subst digits_of.simps) (simp add: int_of_digits_def digit_val_digit_char)
  next
    case False
    with 1 have "int_of_digits (digits_of (n div 10)) = n div 10" by simp
    then show ?thesis using False
      by (subst digits_of.simps) (simp add: int_of_digits_snoc digit_val_digit_char)
  qed
qed

lemma hd_digits_of: "10 \<le> n \<Longrightarrow> hd (digits_of n) \<noteq> CHR ''0''"
proof (induction n rule: digits_of.induct)
  case (1 n)
  show ?case
  proof (cases "n div 10 < 10")
    case True
    have "0 < n div 10" using 1(2) by simp
    then have "digit_char (n div 10) \<noteq> CHR ''0''"
      using True of_char_digit_char[of "n div 10"] by auto
    then show ?thesis using 1(2) True
      by (subst digits_of.simps, subst digits_of.simps) simp
  next
    case False
    then have "hd (digits_of (n div 10)) \<noteq> CHR ''0''" using 1 by simp
    then show ?thesis using 1(2) digits_of_not_Nil[of "n div 10"]
      by (subst digits_of.simps) simp
  qed
qed

lemma length_digits_of_small: "n < 10 \<Longrightarrow> length (digits_of n) = 1"
  by (subst digits_of.simps) simp

lemma hex_val_hex_char: "0 \<le> d \<Longrightarrow> d < 16 \<Longrightarrow> hex_val (hex_char d) = Some d"
  by (auto simp: hex_val_def hex_char_def of_char_of Let_def)

lemma char_eq_iff_code: "(c = d) = ((of_char c :: int) = of_char d)"
  by simp

lemma of_char_bounds: "0 \<le> (of_char c :: int) \<and> (of_char c :: int) < 256"
  by (metis of_char_mod_256 pos_mod_bound pos_mod_sign zero_less_numeral)

lemma unescape_simple:
  "(of_char c :: int) = 8 \<Longrightarrow> unescape (CHR ''b'') = Some c"
  "(of_char c :: int) = 9 \<Longrightarrow> unescape (CHR ''t'') = Some c"
  "(of_char c :: int) = 10 \<Longrightarrow> unescape (CHR ''n'') = Some c"
  "(of_char c :: int) = 12 \<Longrightarrow> unescape (CHR ''f'') = Some c"
  "(of_char c :: int) = 13 \<Longrightarrow> unescape (CHR ''r'') = Some c"
  by (simp_all add: unescape_def char_eq_iff_code[of _ c] of_char_of)

lemma hex4_low:
  assumes "(of_char c :: int) < 32"
  shows "hex4 (CHR ''0'') (CHR ''0'') (hex_char (of_char c div 16)) (hex_char (of_char c mod 16)) = Some c"
proof -
  let ?n = "of_char c :: int"
  have b: "0 \<le> ?n" using of_char_bounds by blast
  have 1: "hex_val (hex_char (?n div 16)) = Some (?n div 16)"
    using assms b by (intro hex_val_hex_char) auto
  have 2: "hex_val (hex_char (?n mod 16)) = Some (?n mod 16)"
    by (intro hex_val_hex_char) auto
  have 3: "hex_val (CHR ''0'') = Some 0" by (simp add: hex_val_def)
  have "char_of (16 * (?n div 16) + ?n mod 16) = c" by simp
  then show ?thesis by (simp add: hex4_def 1 2 3)
qed

lemma parse_chars_esc:
  "parse_chars (esc_char c @ t) =
     (case parse_chars t of None \<Rightarrow> None | Some (s, r) \<Rightarrow> Some (c # s, r))"
proof -
  let ?n = "of_char c :: int"
  consider "?n = 8" | "?n = 9" | "?n = 10" | "?n = 12" | "?n = 13" | "c = DQ" | "c = BSL"
    | "?n < 32" "?n \<notin> {8, 9, 10, 12, 13}"
    | "32 \<le> ?n" "c \<noteq> DQ" "c \<noteq> BSL"
    by fastforce
  then show ?thesis
  proof cases
    case 1 then show ?thesis by (simp add: esc_char_def unescape_simple)
  next
    case 2 then show ?thesis by (simp add: esc_char_def unescape_simple)
  next
    case 3 then show ?thesis by (simp add: esc_char_def unescape_simple)
  next
    case 4 then show ?thesis by (simp add: esc_char_def unescape_simple)
  next
    case 5 then show ?thesis by (simp add: esc_char_def unescape_simple)
  next
    case 6 then show ?thesis by (simp add: esc_char_def unescape_def split: option.split)
  next
    case 7 then show ?thesis by (simp add: esc_char_def unescape_def split: option.split)
  next
    case 8
    then have "c \<noteq> DQ" "c \<noteq> BSL" by auto
    with 8 show ?thesis by (simp add: esc_char_def Let_def hex4_low split: option.split)
  next
    case 9 then show ?thesis by (simp add: esc_char_def Let_def split: option.split)
  qed
qed

lemma parse_chars_quoted:
  "parse_chars (concat (map esc_char s) @ DQ # rest) = Some (s, rest)"
  by (induction s) (simp_all add: parse_chars_esc)

lemma takeWhile_digits:
  assumes "list_all is_digit ds" "rest = [] \<or> \<not> is_digit (hd rest)"
  shows "takeWhile is_digit (ds @ rest) = ds" "dropWhile is_digit (ds @ rest) = rest"
proof -
  have a: "\<forall>x \<in> set ds. is_digit x" using assms(1) by (simp add: list_all_iff)
  have t: "takeWhile is_digit rest = []" using assms(2) by (cases rest) auto
  have d: "dropWhile is_digit rest = rest" using assms(2) by (cases rest) auto
  show "takeWhile is_digit (ds @ rest) = ds" using a t by (simp add: takeWhile_append2)
  show "dropWhile is_digit (ds @ rest) = rest" using a d by (simp add: dropWhile_append2)
qed

lemma delim_not_digit: "delim rest \<Longrightarrow> rest = [] \<or> \<not> is_digit (hd rest)"
  by (cases rest) (auto simp: delim_def is_digit_def)

lemma delim_not_frac: "delim rest \<Longrightarrow> rest \<noteq> [] \<Longrightarrow> hd rest \<notin> {CHR ''.'', CHR ''e'', CHR ''E''}"
  by (cases rest) (auto simp: delim_def)

lemma parse_digits_digits_of:
  assumes "0 \<le> n" "delim rest" "neg \<longrightarrow> n \<noteq> 0"
  shows "parse_digits neg (digits_of n @ rest) = Some (JNum (if neg then - n else n), rest)"
proof -
  have tw: "takeWhile is_digit (digits_of n @ rest) = digits_of n"
    and dw: "dropWhile is_digit (digits_of n @ rest) = rest"
    using takeWhile_digits[OF digits_of_all_digits[OF assms(1)] delim_not_digit[OF assms(2)]]
    by auto
  have lead: "\<not> (1 < length (digits_of n) \<and> hd (digits_of n) = CHR ''0'')"
  proof (cases "n < 10")
    case True then show ?thesis by (simp add: length_digits_of_small)
  next
    case False then show ?thesis using hd_digits_of[of n] by simp
  qed
  have frac: "\<not> (rest \<noteq> [] \<and> hd rest \<in> {CHR ''.'', CHR ''e'', CHR ''E''})"
    using delim_not_frac[OF assms(2)] by blast
  show ?thesis
    unfolding parse_digits_def Let_def tw dw
    using lead frac assms(3) digits_of_not_Nil[of n] int_of_digits_digits_of[OF assms(1)]
    by simp
qed

lemma hd_digits_of_not_minus: "0 \<le> n \<Longrightarrow> hd (digits_of n) \<noteq> CHR ''-''"
  using digits_of_all_digits[of n] digits_of_not_Nil[of n]
  by (cases "digits_of n") (auto simp: is_digit_def)

lemma parse_number_show_int:
  assumes "delim rest"
  shows "parse_number (show_int i @ rest) = Some (JNum i, rest)"
proof (cases "i < 0")
  case True
  then show ?thesis
    using parse_digits_digits_of[of "- i" rest True] assms
    by (simp add: parse_number_def show_int_def)
next
  case False
  then have nn: "0 \<le> i" by simp
  obtain c ds where ds: "digits_of i = c # ds"
    using digits_of_not_Nil[of i] by (cases "digits_of i") auto
  then have "c \<noteq> CHR ''-''" using hd_digits_of_not_minus[OF nn] by simp
  then show ?thesis
    using parse_digits_digits_of[of i rest False] assms nn False ds
    by (simp add: parse_number_def show_int_def)
qed

section \<open>\<open>JSON.parse\<close> reads back what \<open>JSON.stringify\<close> writes\<close>

lemma obj_ok_append:
  "obj_ok (xs @ ys) =
     (obj_ok xs \<and> obj_ok ys \<and>
      (\<forall>x \<in> set xs. \<forall>y \<in> set ys. fst x \<noteq> fst y \<and> \<not> key_before (fst y) (fst x)))"
  by (induction xs) auto

lemma obj_ins_last:
  "\<forall>p \<in> set ps. \<not> key_before k (fst p) \<Longrightarrow> obj_ins k v ps = ps @ [(k, v)]"
  by (induction ps) auto

lemma obj_put_last:
  assumes "obj_ok (ps @ [q])"
  shows "obj_put ps q = ps @ [q]"
proof -
  from assms have a: "\<forall>x \<in> set ps. fst x \<noteq> fst q \<and> \<not> key_before (fst q) (fst x)"
    by (simp add: obj_ok_append)
  then have "fst q \<notin> fst ` set ps" by (auto simp: image_iff)
  moreover have "obj_ins (fst q) (snd q) ps = ps @ [(fst q, snd q)]"
    by (rule obj_ins_last) (use a in simp)
  ultimately show ?thesis by (simp add: obj_put_def)
qed

lemma obj_of_canonical: "obj_ok ps \<Longrightarrow> obj_of ps = ps"
proof (induction ps rule: rev_induct)
  case Nil
  show ?case by (simp add: obj_of_def)
next
  case (snoc q ps)
  then have "obj_of ps = ps" by (simp add: obj_ok_append)
  then show ?case using obj_put_last[OF snoc.prems] by (simp add: obj_of_def)
qed

lemma is_json_ws_space: "is_json_ws (CHR '' '')"
  by (simp add: is_json_ws_def)

lemma blank_ws: "blank w \<Longrightarrow> \<forall>c \<in> set w. is_json_ws c"
  unfolding blank_def using is_json_ws_space by metis

lemma skip_ws_blank: "blank w \<Longrightarrow> skip_ws (w @ s) = skip_ws s"
  using blank_ws[of w] by (simp add: skip_ws_def dropWhile_append2)

lemma skip_ws_nl: "blank ind \<Longrightarrow> skip_ws (nl gap ind @ s) = skip_ws s"
  using skip_ws_blank[of ind s] by (simp add: nl_def skip_ws_def is_json_ws_def)

lemma skip_ws_colon: "skip_ws (colon gap @ s) = CHR '':'' # (if gap = [] then s else CHR '' '' # s)"
  by (simp add: colon_def skip_ws_def is_json_ws_def)

lemma blank_append: "blank a \<Longrightarrow> blank b \<Longrightarrow> blank (a @ b)"
  unfolding blank_def by (metis Un_iff set_append)

text \<open>Every parser of the descent skips leading white space.\<close>

lemma parse_value_skip: "skip_ws s = skip_ws s' \<Longrightarrow> parse_value n s = parse_value n s'"
  by (cases n) simp_all

lemma parse_elements_skip: "skip_ws s = skip_ws s' \<Longrightarrow> parse_elements n s = parse_elements n s'"
  by (cases n) simp_all

lemma parse_member_skip: "skip_ws s = skip_ws s' \<Longrightarrow> parse_member n s = parse_member n s'"
  by (cases n) simp_all

lemma parse_members_skip: "skip_ws s = skip_ws s' \<Longrightarrow> parse_members n s = parse_members n s'"
  by (cases n) simp_all

text \<open>The first character of a serialised value.\<close>

lemma starter_props:
  assumes "starter c"
  shows "\<not> is_json_ws c" "c \<noteq> CHR '']''" "c \<noteq> CHR ''}''" "c \<noteq> CHR '',''" "\<not> is_js_space c"
  using assms by (auto simp: starter_def is_json_ws_def is_digit_def is_js_space_def)

lemma show_int_head: "\<exists>c t. show_int i = c # t \<and> (c = CHR ''-'' \<or> is_digit c)"
proof (cases "i < 0")
  case True then show ?thesis by (simp add: show_int_def)
next
  case False
  then have "list_all is_digit (digits_of i)" by (simp add: digits_of_all_digits)
  then show ?thesis using False digits_of_not_Nil[of i]
    by (cases "digits_of i") (auto simp: show_int_def)
qed

lemma ser_head: "\<exists>c t. ser gap ind v = c # t \<and> starter c"
proof (cases v)
  case (JNum i)
  then show ?thesis using show_int_head[of i] by (auto simp: starter_def)
next
  case (JArr xs) then show ?thesis by (cases xs) (auto simp: starter_def)
next
  case (JObj ps) then show ?thesis by (cases ps) (auto simp: starter_def)
qed (auto simp: starter_def quote_def is_digit_def)

lemma skip_ws_ser: "skip_ws (ser gap ind v @ s) = ser gap ind v @ s"
proof -
  obtain c t where "ser gap ind v = c # t" "starter c" using ser_head by blast
  then show ?thesis using starter_props(1)[of c] by (simp add: skip_ws_def)
qed

lemma delim_simps:
  "delim (CHR '','' # s)" "delim (CHR '']'' # s)" "delim (CHR ''}'' # s)" "delim (NL # s)" "delim []"
  by (simp_all add: delim_def)

lemma delim_nl: "delim (nl gap ind @ CHR '']'' # s)" "delim (nl gap ind @ CHR ''}'' # s)"
  by (simp_all add: nl_def delim_def)

lemma parse_scalar_null: "parse_scalar (''null'' @ rest) = Some (JNull, rest)"
  by (simp add: parse_scalar_def)

lemma parse_scalar_true: "parse_scalar (''true'' @ rest) = Some (JBool True, rest)"
  by (simp add: parse_scalar_def)

lemma parse_scalar_false: "parse_scalar (''false'' @ rest) = Some (JBool False, rest)"
  by (simp add: parse_scalar_def)

lemma parse_scalar_str: "parse_scalar (quote s @ rest) = Some (JStr s, rest)"
  by (simp add: parse_scalar_def quote_def parse_chars_quoted)

lemma parse_scalar_num:
  assumes "delim rest"
  shows "parse_scalar (show_int i @ rest) = Some (JNum i, rest)"
proof -
  obtain c t where ct: "show_int i = c # t" "c = CHR ''-'' \<or> is_digit c"
    using show_int_head by blast
  have "c \<noteq> DQ" "c \<noteq> CHR ''n''" "c \<noteq> CHR ''t''" "c \<noteq> CHR ''f''"
    using ct(2) by (auto simp: is_digit_def)
  then have "parse_scalar (c # t @ rest) = parse_number (c # t @ rest)"
    by (simp add: parse_scalar_def)
  then show ?thesis using parse_number_show_int[OF assms, of i] ct(1) by simp
qed

text \<open>A scalar at the head of a text is read by \<open>parse_value\<close> with any fuel.\<close>

lemma parse_value_scalar:
  assumes "s = c # t" "starter c" "c \<noteq> CHR ''[''" "c \<noteq> CHR ''{''"
  shows "parse_value (Suc n) s = parse_scalar s"
  using assms starter_props(1)[of c] by (simp add: skip_ws_def)

lemma skip_ws_open: "skip_ws (CHR ''['' # s) = CHR ''['' # s" "skip_ws (CHR ''{'' # s) = CHR ''{'' # s"
  "skip_ws (CHR '','' # s) = CHR '','' # s" "skip_ws (CHR '']'' # s) = CHR '']'' # s"
  "skip_ws (CHR ''}'' # s) = CHR ''}'' # s" "skip_ws (DQ # s) = DQ # s"
  by (simp_all add: skip_ws_def is_json_ws_def)

lemma delim_items:
  "delim (concat (map (\<lambda>y. CHR '','' # f y) ys) @ nl gap ind @ CHR '']'' # rest)"
  "delim (concat (map (\<lambda>y. CHR '','' # f y) ys) @ nl gap ind @ CHR ''}'' # rest)"
  by (cases ys; simp add: delim_simps delim_nl)+

lemma parse_elements_tail:
  assumes "blank gap" "blank ind"
    and IH: "\<And>y rest n. y \<in> set ys \<Longrightarrow> delim rest \<Longrightarrow> length (ser gap (ind @ gap) y) \<le> n
               \<Longrightarrow> parse_value n (ser gap (ind @ gap) y @ rest) = Some (y, rest)"
  shows "length (concat (map (\<lambda>y. CHR '','' # nl gap (ind @ gap) @ ser gap (ind @ gap) y) ys)
                   @ nl gap ind @ '']'') \<le> n
     \<Longrightarrow> parse_elements n
           (concat (map (\<lambda>y. CHR '','' # nl gap (ind @ gap) @ ser gap (ind @ gap) y) ys)
              @ nl gap ind @ CHR '']'' # rest) = Some (ys, rest)"
  using IH
proof (induction ys arbitrary: n)
  case Nil
  then obtain m where n: "n = Suc m" by (cases n) auto
  have "skip_ws (nl gap ind @ CHR '']'' # rest) = CHR '']'' # rest"
    using skip_ws_nl[OF assms(2)] by (simp add: skip_ws_open)
  then show ?case by (simp add: n)
next
  case (Cons y ys)
  let ?item = "\<lambda>y. CHR '','' # nl gap (ind @ gap) @ ser gap (ind @ gap) y"
  let ?T = "concat (map ?item ys) @ nl gap ind @ CHR '']'' # rest"
  from Cons.prems(1) obtain m where n: "n = Suc m" by (cases n) auto
  have b: "blank (ind @ gap)" using assms by (simp add: blank_append)
  have len_y: "length (ser gap (ind @ gap) y) \<le> m" using Cons.prems(1) n by simp
  have len_t: "length (concat (map ?item ys) @ nl gap ind @ '']'') \<le> m"
    using Cons.prems(1) n by simp
  have "parse_value m (nl gap (ind @ gap) @ ser gap (ind @ gap) y @ ?T)
        = parse_value m (ser gap (ind @ gap) y @ ?T)"
    by (rule parse_value_skip) (simp add: skip_ws_nl[OF b])
  also have "\<dots> = Some (y, ?T)"
    by (rule Cons.prems(2)) (simp_all add: delim_items len_y)
  finally have v: "parse_value m (nl gap (ind @ gap) @ ser gap (ind @ gap) y @ ?T) = Some (y, ?T)" .
  have t: "parse_elements m ?T = Some (ys, rest)"
    by (rule Cons.IH[OF len_t]) (simp add: Cons.prems(2))
  show ?case by (simp add: n skip_ws_open v t)
qed

lemma parse_member_ser:
  assumes "blank ind'" "delim rest"
    and IH: "\<And>rest n. delim rest \<Longrightarrow> length (ser gap ind' (snd q)) \<le> n
               \<Longrightarrow> parse_value n (ser gap ind' (snd q) @ rest) = Some (snd q, rest)"
    and len: "length (quote (fst q) @ colon gap @ ser gap ind' (snd q)) \<le> n"
  shows "parse_member n (nl gap ind' @ quote (fst q) @ colon gap @ ser gap ind' (snd q) @ rest)
         = Some (q, rest)"
proof -
  let ?v = "ser gap ind' (snd q)"
  from len obtain m where n: "n = Suc m" by (cases n) (auto simp: quote_def)
  have len_v: "length ?v \<le> m" using len n by (simp add: quote_def)
  have 1: "skip_ws (nl gap ind' @ quote (fst q) @ colon gap @ ?v @ rest)
           = DQ # concat (map esc_char (fst q)) @ DQ # (colon gap @ ?v @ rest)"
    using skip_ws_nl[OF assms(1)] by (simp add: quote_def skip_ws_open)
  have 2: "parse_chars (concat (map esc_char (fst q)) @ DQ # (colon gap @ ?v @ rest))
           = Some (fst q, colon gap @ ?v @ rest)"
    by (rule parse_chars_quoted)
  have 3: "parse_value m (if gap = [] then ?v @ rest else CHR '' '' # ?v @ rest) = Some (snd q, rest)"
  proof -
    have "parse_value m (if gap = [] then ?v @ rest else CHR '' '' # ?v @ rest)
          = parse_value m (?v @ rest)"
      by (rule parse_value_skip) (simp add: skip_ws_def is_json_ws_def)
    then show ?thesis using IH[OF assms(2) len_v] by simp
  qed
  show ?thesis
    unfolding n parse_member.simps 1
    by (simp add: 2 skip_ws_colon 3 del: parse_value.simps)
qed

lemma parse_members_tail:
  assumes "blank gap" "blank ind"
    and IH: "\<And>q rest n. q \<in> set qs \<Longrightarrow> delim rest \<Longrightarrow> length (ser gap (ind @ gap) (snd q)) \<le> n
               \<Longrightarrow> parse_value n (ser gap (ind @ gap) (snd q) @ rest) = Some (snd q, rest)"
  shows "length (concat (map (\<lambda>q. CHR '','' # nl gap (ind @ gap) @ quote (fst q) @ colon gap
                                      @ ser gap (ind @ gap) (snd q)) qs)
                   @ nl gap ind @ ''}'') \<le> n
     \<Longrightarrow> parse_members n
           (concat (map (\<lambda>q. CHR '','' # nl gap (ind @ gap) @ quote (fst q) @ colon gap
                                  @ ser gap (ind @ gap) (snd q)) qs)
              @ nl gap ind @ CHR ''}'' # rest) = Some (qs, rest)"
  using IH
proof (induction qs arbitrary: n)
  case Nil
  then obtain m where n: "n = Suc m" by (cases n) auto
  have "skip_ws (nl gap ind @ CHR ''}'' # rest) = CHR ''}'' # rest"
    using skip_ws_nl[OF assms(2)] by (simp add: skip_ws_open)
  then show ?case by (simp add: n)
next
  case (Cons q qs)
  let ?item = "\<lambda>q. CHR '','' # nl gap (ind @ gap) @ quote (fst q) @ colon gap
                        @ ser gap (ind @ gap) (snd q)"
  let ?T = "concat (map ?item qs) @ nl gap ind @ CHR ''}'' # rest"
  from Cons.prems(1) obtain m where n: "n = Suc m" by (cases n) auto
  have b: "blank (ind @ gap)" using assms by (simp add: blank_append)
  have len_q: "length (quote (fst q) @ colon gap @ ser gap (ind @ gap) (snd q)) \<le> m"
    using Cons.prems(1) n by simp
  have len_t: "length (concat (map ?item qs) @ nl gap ind @ ''}'') \<le> m"
    using Cons.prems(1) n by simp
  have v: "parse_member m (nl gap (ind @ gap) @ quote (fst q) @ colon gap
                             @ ser gap (ind @ gap) (snd q) @ ?T) = Some (q, ?T)"
    by (rule parse_member_ser[OF b _ _ len_q]) (simp_all add: delim_items Cons.prems(2))
  have t: "parse_members m ?T = Some (qs, rest)"
    by (rule Cons.IH[OF len_t]) (simp add: Cons.prems(2))
  show ?case using v t by (simp add: n skip_ws_open)
qed

lemma parse_ser:
  assumes gap: "blank gap"
  shows "wf_json v \<Longrightarrow> blank ind \<Longrightarrow> delim rest \<Longrightarrow> length (ser gap ind v) \<le> n
         \<Longrightarrow> parse_value n (ser gap ind v @ rest) = Some (v, rest)"
proof (induction v arbitrary: ind rest n)
  case JNull
  then obtain m where n: "n = Suc m" by (cases n) auto
  have "parse_value (Suc m) (''null'' @ rest) = parse_scalar (''null'' @ rest)"
    by (rule parse_value_scalar[where c = "CHR ''n''"]) (simp_all add: starter_def)
  then show ?case using parse_scalar_null[of rest] by (simp add: n del: parse_value.simps)
next
  case (JBool b)
  then obtain m where n: "n = Suc m" by (cases n) (auto split: if_splits)
  show ?case
  proof (cases b)
    case True
    have "parse_value (Suc m) (''true'' @ rest) = parse_scalar (''true'' @ rest)"
      by (rule parse_value_scalar[where c = "CHR ''t''"]) (simp_all add: starter_def)
    then show ?thesis using True parse_scalar_true[of rest] by (simp add: n del: parse_value.simps)
  next
    case False
    have "parse_value (Suc m) (''false'' @ rest) = parse_scalar (''false'' @ rest)"
      by (rule parse_value_scalar[where c = "CHR ''f''"]) (simp_all add: starter_def)
    then show ?thesis using False parse_scalar_false[of rest] by (simp add: n del: parse_value.simps)
  qed
next
  case (JNum i)
  obtain c t where ct: "show_int i = c # t" "c = CHR ''-'' \<or> is_digit c"
    using show_int_head by blast
  with JNum obtain m where n: "n = Suc m" by (cases n) auto
  have "parse_value (Suc m) (show_int i @ rest) = parse_scalar (show_int i @ rest)"
    by (rule parse_value_scalar[where c = c and t = "t @ rest"])
       (use ct in \<open>auto simp: starter_def is_digit_def\<close>)
  then show ?case using parse_scalar_num[OF JNum.prems(3)] by (simp add: n del: parse_value.simps)
next
  case (JStr s)
  then obtain m where n: "n = Suc m" by (cases n) (auto simp: quote_def)
  have "parse_value (Suc m) (quote s @ rest) = parse_scalar (quote s @ rest)"
    by (rule parse_value_scalar[where c = DQ]) (simp_all add: starter_def quote_def)
  then show ?case using parse_scalar_str[of s rest] by (simp add: n del: parse_value.simps)
next
  case (JArr xs)
  show ?case
  proof (cases xs)
    case Nil
    with JArr.prems obtain m where n: "n = Suc m" by (cases n) auto
    show ?thesis using Nil by (simp add: n skip_ws_open)
  next
    case (Cons x xs')
    let ?i = "ind @ gap"
    let ?item = "\<lambda>y. CHR '','' # nl gap ?i @ ser gap ?i y"
    let ?T = "concat (map ?item xs') @ nl gap ind @ CHR '']'' # rest"
    have b: "blank ?i" using gap JArr.prems(2) by (simp add: blank_append)
    have ih: "\<And>y rest n. y \<in> set xs \<Longrightarrow> delim rest \<Longrightarrow> length (ser gap ?i y) \<le> n
                \<Longrightarrow> parse_value n (ser gap ?i y @ rest) = Some (y, rest)"
      using JArr.IH JArr.prems(1) b by simp
    from JArr.prems(4) Cons obtain m where n: "n = Suc m" by (cases n) auto
    have len_x: "length (ser gap ?i x) \<le> m" using JArr.prems(4) Cons n by simp
    have len_t: "length (concat (map ?item xs') @ nl gap ind @ '']'') \<le> m"
      using JArr.prems(4) Cons n by simp
    obtain c t where ct: "ser gap ?i x = c # t" "starter c" using ser_head by blast
    have 1: "skip_ws (nl gap ?i @ ser gap ?i x @ ?T) = c # t @ ?T"
      using skip_ws_nl[OF b, of gap "ser gap ?i x @ ?T"] skip_ws_ser[of gap ?i x ?T] ct(1) by simp
    have "parse_value m (nl gap ?i @ ser gap ?i x @ ?T) = parse_value m (ser gap ?i x @ ?T)"
      by (rule parse_value_skip) (simp add: skip_ws_nl[OF b])
    also have "\<dots> = Some (x, ?T)"
      by (rule ih) (simp_all add: Cons delim_items len_x)
    finally have 2: "parse_value m (nl gap ?i @ ser gap ?i x @ ?T) = Some (x, ?T)" .
    have 3: "parse_elements m ?T = Some (xs', rest)"
      by (rule parse_elements_tail[OF gap JArr.prems(2) _ len_t]) (simp add: ih Cons)
    have "parse_value (Suc m) (CHR ''['' # nl gap ?i @ ser gap ?i x @ ?T) = Some (JArr (x # xs'), rest)"
      unfolding parse_value.simps skip_ws_open using starter_props(2)[OF ct(2)]
      by (simp add: 1 2 3 del: parse_value.simps)
    then show ?thesis by (simp add: Cons n del: parse_value.simps)
  qed
next
  case (JObj ps)
  show ?case
  proof (cases ps)
    case Nil
    with JObj.prems obtain m where n: "n = Suc m" by (cases n) auto
    show ?thesis using Nil by (simp add: n skip_ws_open)
  next
    case (Cons p ps')
    let ?i = "ind @ gap"
    let ?mem = "\<lambda>q. quote (fst q) @ colon gap @ ser gap ?i (snd q)"
    let ?item = "\<lambda>q. CHR '','' # nl gap ?i @ quote (fst q) @ colon gap @ ser gap ?i (snd q)"
    let ?T = "concat (map ?item ps') @ nl gap ind @ CHR ''}'' # rest"
    have b: "blank ?i" using gap JObj.prems(2) by (simp add: blank_append)
    have ih: "\<And>q rest n. q \<in> set ps \<Longrightarrow> delim rest \<Longrightarrow> length (ser gap ?i (snd q)) \<le> n
                \<Longrightarrow> parse_value n (ser gap ?i (snd q) @ rest) = Some (snd q, rest)"
    proof -
      fix q :: "string \<times> json" and rest n
      assume q: "q \<in> set ps" and d: "delim rest" and l: "length (ser gap ?i (snd q)) \<le> n"
      have "snd q \<in> Basic_BNFs.snds q" by (cases q) simp
      moreover have "wf_json (snd q)" using JObj.prems(1) q by simp
      ultimately show "parse_value n (ser gap ?i (snd q) @ rest) = Some (snd q, rest)"
        using JObj.IH[OF q _ _ b d l] by blast
    qed
    from JObj.prems(4) Cons obtain m where n: "n = Suc m" by (cases n) auto
    have len_p: "length (?mem p) \<le> m" using JObj.prems(4) Cons n by simp
    have len_t: "length (concat (map ?item ps') @ nl gap ind @ ''}'') \<le> m"
      using JObj.prems(4) Cons n by simp
    have 1: "skip_ws (nl gap ?i @ quote (fst p) @ colon gap @ ser gap ?i (snd p) @ ?T) = DQ # concat (map esc_char (fst p)) @ DQ # (colon gap @ ser gap ?i (snd p) @ ?T)"
      using skip_ws_nl[OF b] by (simp add: quote_def skip_ws_open)
    have 2: "parse_member m (nl gap ?i @ quote (fst p) @ colon gap @ ser gap ?i (snd p) @ ?T) = Some (p, ?T)"
      by (rule parse_member_ser[OF b _ _ len_p]) (simp_all add: delim_items ih Cons)
    have 3: "parse_members m ?T = Some (ps', rest)"
      by (rule parse_members_tail[OF gap JObj.prems(2) _ len_t]) (simp add: ih Cons)
    have ok: "obj_of (p # ps') = p # ps'"
      using JObj.prems(1) Cons by (intro obj_of_canonical) simp
    have "parse_value (Suc m) (CHR ''{'' # nl gap ?i @ quote (fst p) @ colon gap @ ser gap ?i (snd p) @ ?T) = Some (JObj (p # ps'), rest)"
      unfolding parse_value.simps skip_ws_open using 2
      by (simp add: 1 3 ok del: parse_value.simps parse_member.simps)
    then show ?thesis by (simp add: Cons n del: parse_value.simps)
  qed
next
  case JNegZero
  then show ?case by simp
qed

lemma skip_ws_Nil: "skip_ws [] = []"
  by (simp add: skip_ws_def)

lemma blank_two: "blank ''  ''" "blank []"
  by (simp_all add: blank_def)

lemma JSON_parse_ser:
  assumes "blank gap" "wf_json v"
  shows "JSON_parse (ser gap [] v) = Some v"
proof -
  have "parse_value (length (ser gap [] v)) (ser gap [] v @ []) = Some (v, [])"
    by (rule parse_ser[OF assms(1) assms(2)]) (simp_all add: blank_two delim_simps)
  then show ?thesis by (simp add: JSON_parse_def skip_ws_Nil)
qed

lemma JSON_parse_stringify2: "wf_json v \<Longrightarrow> JSON_parse (JSON_stringify2 v) = Some v"
  unfolding JSON_stringify2_def by (rule JSON_parse_ser) (simp_all add: blank_two)


section \<open>Running computations\<close>

lemma io_bind_Inr: "m w = (Inr x, w') \<Longrightarrow> io_bind m f w = f x w'"
  by (simp add: io_bind_def)

lemma io_bind_Inl: "m w = (Inl e, w') \<Longrightarrow> io_bind m f w = (Inl e, w')"
  by (simp add: io_bind_def)

lemma io_bind_emit: "io_bind (emit e) f w = f () (w\<lparr>trace := trace w @ [e]\<rparr>)"
  by (simp add: io_bind_def emit_def)

lemma io_bind_return: "io_bind (io_return x) f w = f x w"
  by (simp add: io_bind_def io_return_def)

lemma io_bind_success:
  "io_bind m f w = (Inr y, w') \<Longrightarrow> \<exists>x w1. m w = (Inr x, w1) \<and> f x w1 = (Inr y, w')"
  by (auto simp: io_bind_def split: prod.splits sum.splits)

lemma steps_Cons_success:
  "steps (m # ms) w = (Inr u, w') \<Longrightarrow> \<exists>w1. m w = (Inr (), w1) \<and> steps ms w1 = (Inr (), w')"
  by (auto dest!: io_bind_success)

lemma steps_append: "steps (xs @ ys) w = io_bind (steps xs) (\<lambda>_. steps ys) w"
proof (induction xs arbitrary: w)
  case Nil
  show ?case by (simp add: io_bind_return)
next
  case (Cons m xs)
  show ?case
    by (cases "m w" rule: prod.exhaust; cases "fst (m w)")
       (auto simp: io_bind_def Cons split: prod.splits sum.splits)
qed

section \<open>The events of a computation\<close>

lemma emits_onlyI:
  "(\<And>w. \<exists>t. trace (snd (m w)) = trace w @ t \<and> (\<forall>e \<in> set t. P e)) \<Longrightarrow> emits_only P m"
  by (simp add: emits_only_def)

lemma emits_onlyD:
  "emits_only P m \<Longrightarrow> \<exists>t. trace (snd (m w)) = trace w @ t \<and> (\<forall>e \<in> set t. P e)"
  by (simp add: emits_only_def)

lemma emits_only_return: "emits_only P (io_return x)"
  by (simp add: emits_only_def io_return_def)

lemma emits_only_throw: "emits_only P (io_throw e)"
  by (simp add: emits_only_def io_throw_def)

lemma emits_only_emit: "P e \<Longrightarrow> emits_only P (emit e)"
  by (simp add: emits_only_def emit_def)

lemma emits_only_bind:
  assumes "emits_only P m" "\<And>x. emits_only P (f x)"
  shows "emits_only P (io_bind m f)"
proof (rule emits_onlyI)
  fix w
  obtain r w1 where mw: "m w = (r, w1)" by (cases "m w")
  obtain t1 where t1: "trace w1 = trace w @ t1" "\<forall>e \<in> set t1. P e"
    using emits_onlyD[OF assms(1), of w] mw by auto
  show "\<exists>t. trace (snd (io_bind m f w)) = trace w @ t \<and> (\<forall>e \<in> set t. P e)"
  proof (cases r)
    case (Inl e)
    then show ?thesis using mw t1 by (auto simp: io_bind_def)
  next
    case (Inr x)
    obtain t2 where t2: "trace (snd (f x w1)) = trace w1 @ t2" "\<forall>e \<in> set t2. P e"
      using emits_onlyD[OF assms(2), of x w1] by auto
    have "trace (snd (io_bind m f w)) = trace w @ (t1 @ t2)"
      using Inr mw t1 t2 by (simp add: io_bind_def)
    then show ?thesis using t1 t2 by (intro exI[of _ "t1 @ t2"]) auto
  qed
qed

lemma emits_only_steps: "(\<And>m. m \<in> set ms \<Longrightarrow> emits_only P m) \<Longrightarrow> emits_only P (steps ms)"
  by (induction ms) (auto intro: emits_only_return emits_only_bind)

lemma emits_only_try_catch:
  assumes "emits_only P m" "emits_only P h"
  shows "emits_only P (try_catch m h)"
proof (rule emits_onlyI)
  fix w
  obtain r w1 where mw: "m w = (r, w1)" by (cases "m w")
  obtain t1 where t1: "trace w1 = trace w @ t1" "\<forall>e \<in> set t1. P e"
    using emits_onlyD[OF assms(1), of w] mw by auto
  show "\<exists>t. trace (snd (try_catch m h w)) = trace w @ t \<and> (\<forall>e \<in> set t. P e)"
  proof (cases r)
    case (Inr x)
    then show ?thesis using mw t1 by (auto simp: try_catch_def)
  next
    case (Inl e)
    obtain t2 where t2: "trace (snd (h w1)) = trace w1 @ t2" "\<forall>e \<in> set t2. P e"
      using emits_onlyD[OF assms(2), of w1] by auto
    have "trace (snd (try_catch m h w)) = trace w @ (t1 @ t2)"
      using Inl mw t1 t2 by (simp add: try_catch_def)
    then show ?thesis using t1 t2 by (intro exI[of _ "t1 @ t2"]) auto
  qed
qed

text \<open>A computation that leaves the record as it is.\<close>

lemma emits_only_silent: "(\<And>w. trace (snd (m w)) = trace w) \<Longrightarrow> emits_only P m"
  by (simp add: emits_only_def)

lemma lift_fs_trace: "trace (snd (lift_fs f w)) = trace w"
  by (simp add: lift_fs_def split: sum.splits)

lemma with_path_trace: "(\<And>p w. trace (snd (f p w)) = trace w) \<Longrightarrow> trace (snd (with_path s f w)) = trace w"
  by (simp add: with_path_def split: sum.splits)

lemma io_throw_trace: "trace (snd (io_throw e w)) = trace w"
  by (simp add: io_throw_def)

lemma emits_only_with_path: "(\<And>p. emits_only P (f p)) \<Longrightarrow> emits_only P (with_path s f)"
  unfolding emits_only_def with_path_def by (auto split: sum.splits)

lemma emits_only_lift_fs: "emits_only P (lift_fs f)"
  by (rule emits_only_silent) (rule lift_fs_trace)

lemma emits_only_mkdirSync: "(\<And>p. P (FsMkdir p)) \<Longrightarrow> emits_only P (mkdirSync s r)"
  unfolding mkdirSync_def
  by (intro emits_only_with_path emits_only_bind emits_only_emit emits_only_lift_fs)

lemma emits_only_ensureDirSync: "(\<And>p. P (FsMkdir p)) \<Longrightarrow> emits_only P (ensureDirSync s)"
  by (simp add: ensureDirSync_def emits_only_mkdirSync)

lemma emits_only_writeFileSync: "(\<And>p. P (FsWrite p)) \<Longrightarrow> emits_only P (writeFileSync s c)"
  unfolding writeFileSync_def
  by (intro emits_only_with_path emits_only_bind emits_only_emit)
     (auto intro: emits_only_throw emits_only_lift_fs)

lemma emits_only_copySync: "(\<And>p q. P (FsCopy p q)) \<Longrightarrow> emits_only P (copySync s d)"
  unfolding copySync_def
  by (intro emits_only_with_path emits_only_bind emits_only_emit emits_only_lift_fs)

lemma emits_only_chdir: "(\<And>p. P (Chdir p)) \<Longrightarrow> emits_only P (chdir s)"
  unfolding chdir_def
  by (intro emits_only_with_path emits_only_bind emits_only_emit emits_only_silent) auto

lemma emits_only_existsSync: "emits_only P (existsSync s)"
  by (rule emits_only_silent) (simp add: existsSync_def split: sum.splits error.splits option.splits node.splits)

lemma emits_only_readFileSync: "emits_only P (readFileSync s)"
  unfolding readFileSync_def
  by (intro emits_only_silent with_path_trace) (simp split: sum.splits)

lemma run_child_trace: "trace (snd (run_child E c d w)) = trace w"
  by (simp add: run_child_def split: prod.splits option.splits)

lemma emits_only_execSync:
  assumes "\<And>p. P (Exec c p)"
  shows "emits_only P (execSync E c d)"
proof (rule emits_onlyI)
  fix w
  have b: "emits_only P (io_bind (emit (Exec c p)) (\<lambda>_. run_child E c p))" for p
    by (intro emits_only_bind emits_only_emit emits_only_silent assms run_child_trace)
  show "\<exists>t. trace (snd (execSync E c d w)) = trace w @ t \<and> (\<forall>e \<in> set t. P e)"
  proof (cases "exec_dir d w")
    case (Inl e)
    then show ?thesis by (simp add: execSync_def)
  next
    case (Inr p)
    then show ?thesis using emits_onlyD[OF b[of p], of w] by (simp add: execSync_def)
  qed
qed

lemma emits_only_execInherit: "(\<And>p. P (Exec c p)) \<Longrightarrow> emits_only P (execInherit E c d)"
  unfolding execInherit_def
  by (intro emits_only_bind emits_only_execSync emits_only_return)

lemma emits_only_steps_Nil: "emits_only P (steps [])"
  by (simp add: emits_only_return)

lemma emits_only_steps_Cons:
  "emits_only P m \<Longrightarrow> emits_only P (steps ms) \<Longrightarrow> emits_only P (steps (m # ms))"
  by (simp add: emits_only_bind)

lemmas emits_only_intros =
  emits_only_return emits_only_throw emits_only_emit emits_only_bind
  emits_only_steps_Nil emits_only_steps_Cons
  emits_only_try_catch emits_only_mkdirSync emits_only_ensureDirSync emits_only_writeFileSync
  emits_only_copySync emits_only_chdir emits_only_existsSync emits_only_readFileSync
  emits_only_execSync emits_only_execInherit

lemma new_events_append: "trace w' = trace w @ t \<Longrightarrow> new_events w w' = t"
  by (simp add: new_events_def)

section \<open>Detection of the package-manager version\<close>

lemma getPnpmVersion_run:
  "getPnpmVersion E w =
     (case execSync E ''pnpm --version'' None w of
        (Inl e, w') \<Rightarrow>
          (Inr ''9.7.0'',
           w'\<lparr>trace := trace w' @ [ConsoleWarn ''Could not determine pnpm version. Using default.'']\<rparr>)
      | (Inr out, w') \<Rightarrow> (Inr (js_trim out), w'))"
  by (simp add: getPnpmVersion_def try_catch_def io_bind_def io_return_def emit_def
           split: prod.splits sum.splits)

lemma utils_getPnpmVersion_run:
  "utils_getPnpmVersion E w =
     (case execSync E ''pnpm --version'' None w of
        (Inl e, w') \<Rightarrow>
          (Inr ''9.15.4'',
           w'\<lparr>trace := trace w' @ [ConsoleWarn ''Could not determine pnpm version. Using default.'']\<rparr>)
      | (Inr out, w') \<Rightarrow> (Inr (js_trim out), w'))"
  by (simp add: utils_getPnpmVersion_def try_catch_def io_bind_def io_return_def emit_def
           split: prod.splits sum.splits)

lemma execSync_run:
  "execSync E c None w =
     (if node_at (files w) (cwd w) \<noteq> Some Dir then (Inl ENOENT, w\<lparr>trace := trace w @ [Exec c (cwd w)]\<rparr>)
      else (case sh E c (cwd w) (files w) of
              (fs, None) \<Rightarrow> (Inl CommandFailed, w\<lparr>trace := trace w @ [Exec c (cwd w)], files := fs\<rparr>)
            | (fs, Some out) \<Rightarrow> (Inr out, w\<lparr>trace := trace w @ [Exec c (cwd w)], files := fs\<rparr>)))"
  by (simp add: execSync_def exec_dir_def run_child_def io_bind_emit split: prod.splits option.splits)

lemma execSync_env_ok:
  "execSync env_ok ''pnpm --version'' None world0
     = (Inr '' 9.1.0\<newline>'', world0\<lparr>trace := [Exec ''pnpm --version'' []]\<rparr>)"
  by (simp add: execSync_run env_ok_def world0_def node_at_def)

lemma execSync_env_fail:
  "execSync env_fail ''pnpm --version'' None world0
     = (Inl CommandFailed, world0\<lparr>trace := [Exec ''pnpm --version'' []]\<rparr>)"
  by (simp add: execSync_run env_fail_def world0_def node_at_def)

lemma js_trim_version: "js_trim '' 9.1.0\<newline>'' = ''9.1.0''"
  by (simp add: js_trim_def is_js_space_def)

text \<open>
  C5. The detection of the package-manager version never throws. When the version command
  succeeds, both implementations return its standard output, trimmed. When it fails for
  whatever reason, they write a warning to the console and return their fixed fallback
  version.
\<close>

theorem getPnpmVersion_recovers:
  "(\<exists>v w'. getPnpmVersion E w = (Inr v, w')) \<and>
   (\<exists>v w'. utils_getPnpmVersion E w = (Inr v, w')) \<and>
   (\<forall>out w'. execSync E ''pnpm --version'' None w = (Inr out, w') \<longrightarrow>
      getPnpmVersion E w = (Inr (js_trim out), w') \<and>
      utils_getPnpmVersion E w = (Inr (js_trim out), w')) \<and>
   (\<forall>e w'. execSync E ''pnpm --version'' None w = (Inl e, w') \<longrightarrow>
      getPnpmVersion E w =
        (Inr ''9.7.0'',
         w'\<lparr>trace := trace w' @ [ConsoleWarn ''Could not determine pnpm version. Using default.'']\<rparr>) \<and>
      utils_getPnpmVersion E w =
        (Inr ''9.15.4'',
         w'\<lparr>trace := trace w' @ [ConsoleWarn ''Could not determine pnpm version. Using default.'']\<rparr>))"
proof -
  obtain r w1 where ex: "execSync E ''pnpm --version'' None w = (r, w1)"
    by (cases "execSync E ''pnpm --version'' None w")
  show ?thesis
    by (cases r) (simp_all add: getPnpmVersion_run utils_getPnpmVersion_run ex)
qed

theorem getPnpmVersion_recovers_witness:
  "fst (getPnpmVersion env_ok world0) = Inr ''9.1.0'' \<and>
   fst (utils_getPnpmVersion env_ok world0) = Inr ''9.1.0'' \<and>
   fst (getPnpmVersion env_fail world0) = Inr ''9.7.0'' \<and>
   fst (utils_getPnpmVersion env_fail world0) = Inr ''9.15.4''"
  using getPnpmVersion_recovers[of env_ok world0] getPnpmVersion_recovers[of env_fail world0]
  by (simp add: execSync_env_ok execSync_env_fail js_trim_version)

text \<open>
  C9, as stated: the two implementations return the same string for every outcome of the
  version command. They do not: when the command fails, \<open>src/index.ts\<close> falls back to
  9.7.0 and \<open>src/utils/index.ts\<close> to 9.15.4.
\<close>

theorem getPnpmVersion_fallbacks_differ:
  "fst (getPnpmVersion env_fail world0) \<noteq> fst (utils_getPnpmVersion env_fail world0)"
  by (simp add: getPnpmVersion_run utils_getPnpmVersion_run execSync_env_fail)

text \<open>
  C9, amended. The two implementations agree whenever the version command succeeds: they
  return the same string and leave the same world. When it fails they leave the same
  world and differ in the string alone: 9.7.0 in \<open>src/index.ts\<close>, 9.15.4 in
  \<open>src/utils/index.ts\<close>.
\<close>

theorem getPnpmVersion_agree_on_success:
  "(\<forall>out. fst (execSync E ''pnpm --version'' None w) = Inr out \<longrightarrow>
      getPnpmVersion E w = utils_getPnpmVersion E w \<and> fst (getPnpmVersion E w) = Inr (js_trim out)) \<and>
   (\<forall>e. fst (execSync E ''pnpm --version'' None w) = Inl e \<longrightarrow>
      snd (getPnpmVersion E w) = snd (utils_getPnpmVersion E w) \<and>
      fst (getPnpmVersion E w) = Inr ''9.7.0'' \<and>
      fst (utils_getPnpmVersion E w) = Inr ''9.15.4'')"
proof -
  obtain r w1 where ex: "execSync E ''pnpm --version'' None w = (r, w1)"
    by (cases "execSync E ''pnpm --version'' None w")
  show ?thesis
    by (cases r) (simp_all add: getPnpmVersion_run utils_getPnpmVersion_run ex)
qed

theorem getPnpmVersion_agree_on_success_witness:
  "getPnpmVersion env_ok world0 = utils_getPnpmVersion env_ok world0 \<and>
   fst (getPnpmVersion env_ok world0) = Inr ''9.1.0'' \<and>
   snd (getPnpmVersion env_fail world0) = snd (utils_getPnpmVersion env_fail world0)"
  using getPnpmVersion_agree_on_success[of env_ok world0]
        getPnpmVersion_agree_on_success[of env_fail world0]
  by (auto simp: execSync_env_ok execSync_env_fail js_trim_version)

section \<open>The \<open>app\<close> command\<close>

lemma app_action_both:
  "app_action E name \<lparr>opt_next = True, opt_node = True\<rparr> =
     steps
       [mkdirSync (path_join [''apps'', name]) True,
        next_app E (path_join [''apps'', name]),
        emit (ConsoleLog (''App '' @ name @ '' initialized successfully!''))]"
  by (rule ext) (simp add: app_action_def initializeApp_def resolve_type_def io_bind_return Let_def)

lemma emits_only_next_app: "emits_only (\<lambda>e. e \<noteq> Prompt) (next_app E d)"
  unfolding next_app_def by (intro emits_only_intros) simp_all

lemma execSync_select: "execSync (E\<lparr>select_answer := a\<rparr>) c d = execSync E c d"
  by (rule ext) (simp add: execSync_def run_child_def io_bind_def emit_def split: sum.splits option.splits)

lemma next_app_select: "next_app (E\<lparr>select_answer := a\<rparr>) d = next_app E d"
  by (simp add: next_app_def execInherit_def execSync_select)

text \<open>
  C10. With both \<open>--next\<close> and \<open>--node\<close> given, the \<open>app\<close> command creates the directory
  of the unit and runs the Next.js variant: \<open>--next\<close> wins. The prompt is not shown, and
  what the prompt would have answered changes nothing.
\<close>

theorem app_next_takes_precedence:
  "app_action E name \<lparr>opt_next = True, opt_node = True\<rparr> w =
     steps
       [mkdirSync (path_join [''apps'', name]) True,
        next_app E (path_join [''apps'', name]),
        emit (ConsoleLog (''App '' @ name @ '' initialized successfully!''))] w \<and>
   app_action E name \<lparr>opt_next = True, opt_node = True\<rparr> w =
     app_action E name \<lparr>opt_next = True, opt_node = False\<rparr> w \<and>
   Prompt \<notin> set (new_events w (snd (app_action E name \<lparr>opt_next = True, opt_node = True\<rparr> w))) \<and>
   app_action (E\<lparr>select_answer := a\<rparr>) name \<lparr>opt_next = True, opt_node = True\<rparr> w =
     app_action E name \<lparr>opt_next = True, opt_node = True\<rparr> w"
proof -
  let ?run = "app_action E name \<lparr>opt_next = True, opt_node = True\<rparr>"
  have "emits_only (\<lambda>e. e \<noteq> Prompt) ?run"
    unfolding app_action_both
    by (intro emits_only_intros emits_only_next_app) simp_all
  then obtain t where t: "trace (snd (?run w)) = trace w @ t" "\<forall>e \<in> set t. e \<noteq> Prompt"
    using emits_onlyD by blast
  have 3: "Prompt \<notin> set (new_events w (snd (?run w)))"
    using t by (auto simp: new_events_append)
  have 2: "?run w = app_action E name \<lparr>opt_next = True, opt_node = False\<rparr> w"
    by (simp add: app_action_def)
  have 4: "app_action (E\<lparr>select_answer := a\<rparr>) name \<lparr>opt_next = True, opt_node = True\<rparr> w = ?run w"
    by (simp add: app_action_both next_app_select)
  show ?thesis using 2 3 4 by (simp add: app_action_both)
qed

theorem app_next_takes_precedence_witness:
  "Prompt \<notin> set (new_events world0 (snd (app_action env_ok ''foo'' \<lparr>opt_next = True, opt_node = True\<rparr> world0)))
   \<and> app_action (env_ok\<lparr>select_answer := None\<rparr>) ''foo'' \<lparr>opt_next = True, opt_node = True\<rparr> world0 =
     app_action env_ok ''foo'' \<lparr>opt_next = True, opt_node = True\<rparr> world0"
  using app_next_takes_precedence[of env_ok "''foo''" world0 None] by blast

section \<open>Trimming leaves a serialised value as it is\<close>

lemma js_trim_id:
  assumes "s \<noteq> []" "\<not> is_js_space (hd s)" "\<not> is_js_space (last s)"
  shows "js_trim s = s"
proof -
  have 1: "dropWhile is_js_space s = s" using assms(1,2) by (cases s) auto
  obtain t c where tc: "s = t @ [c]" using assms(1) by (cases s rule: rev_cases) auto
  then have 2: "dropWhile is_js_space (rev s) = rev s" using assms(3) by simp
  show ?thesis by (simp add: js_trim_def 1 2)
qed

lemma is_digit_not_space: "is_digit c \<Longrightarrow> \<not> is_js_space c"
  by (auto simp: is_digit_def is_js_space_def)

lemma show_int_last: "is_digit (last (show_int i))"
proof -
  have a: "\<And>n. 0 \<le> n \<Longrightarrow> is_digit (last (digits_of n))"
  proof -
    fix n :: int assume "0 \<le> n"
    then have "list_all is_digit (digits_of n)" by (rule digits_of_all_digits)
    then show "is_digit (last (digits_of n))"
      using digits_of_not_Nil[of n] by (simp add: list_all_iff)
  qed
  show ?thesis
  proof (cases "i < 0")
    case True
    then show ?thesis using a[of "- i"] digits_of_not_Nil[of "- i"] by (simp add: show_int_def)
  next
    case False
    then show ?thesis using a[of i] by (simp add: show_int_def)
  qed
qed

lemma ser_last: "\<not> is_js_space (last (ser gap ind v))"
proof (cases v)
  case (JNum i)
  then show ?thesis using is_digit_not_space[OF show_int_last[of i]] by simp
next
  case (JArr xs) then show ?thesis by (cases xs) (simp_all add: is_js_space_def)
next
  case (JObj ps) then show ?thesis by (cases ps) (simp_all add: is_js_space_def)
qed (simp_all add: is_js_space_def quote_def)

lemma js_trim_ser: "js_trim (ser gap ind v) = ser gap ind v"
proof -
  obtain c t where ct: "ser gap ind v = c # t" "starter c" using ser_head by blast
  have "\<not> is_js_space (hd (ser gap ind v))" using ct starter_props(5) by simp
  then show ?thesis using ct(1) ser_last[of gap ind v] by (intro js_trim_id) simp_all
qed

section \<open>The file system calls\<close>

lemma node_at_update:
  "node_at (AList.update p n fs) q = (if q = [] then Some Dir else if q = p then Some n else node_at fs q)"
  by (simp add: node_at_def update_conv')

lemma fs_write_success:
  assumes "fs_write p c fs = Inr fs'"
  shows "p \<noteq> []" "fs' = AList.update p (File c) fs" "node_at fs p \<noteq> Some Dir"
    "node_at fs (butlast p) = Some Dir"
  using assms
  by (auto simp: fs_write_def node_at_def split: option.splits node.splits if_splits)

lemma fs_write_node_at:
  assumes "fs_write p c fs = Inr fs'"
  shows "node_at fs' q = (if q = p then Some (File c) else node_at fs q)"
  using fs_write_success[OF assms] by (auto simp: node_at_def update_conv')

lemma fs_mkdir_node_at:
  assumes "fs_mkdir p fs = Inr fs'"
  shows "node_at fs' q = (if q = p then Some Dir else node_at fs q)"
  using assms
  by (auto simp: fs_mkdir_def node_at_def update_conv' split: option.splits node.splits if_splits)


lemma mkdirp_from_keeps:
  "mkdirp_from pre cs fs = Inr fs' \<Longrightarrow> node_at fs q = Some n \<Longrightarrow> node_at fs' q = Some n"
proof (induction cs arbitrary: pre fs)
  case Nil
  then show ?case by simp
next
  case (Cons c cs)
  show ?case
  proof (cases "node_at fs (pre @ [c])")
    case None
    with Cons.prems have m: "mkdirp_from (pre @ [c]) cs (AList.update (pre @ [c]) Dir fs) = Inr fs'"
      by simp
    have "q \<noteq> pre @ [c]" using None Cons.prems(2) by auto
    then have "node_at (AList.update (pre @ [c]) Dir fs) q = Some n"
      using Cons.prems(2) by (auto simp: node_at_def update_conv')
    then show ?thesis using Cons.IH[OF m] by simp
  next
    case (Some x)
    with Cons.prems show ?thesis by (cases x) (auto dest: Cons.IH)
  qed
qed

lemma fs_mkdirp_keeps: "fs_mkdirp p fs = Inr fs' \<Longrightarrow> node_at fs q = Some n \<Longrightarrow> node_at fs' q = Some n"
  unfolding fs_mkdirp_def by (rule mkdirp_from_keeps)

text \<open>After \<open>mkdir -p\<close> every directory along the path is there.\<close>

lemma mkdirp_from_made:
  "mkdirp_from pre cs fs = Inr fs' \<Longrightarrow> 0 < k \<Longrightarrow> k \<le> length cs
     \<Longrightarrow> node_at fs' (pre @ take k cs) = Some Dir"
proof (induction cs arbitrary: pre fs k)
  case Nil
  then show ?case by simp
next
  case (Cons c cs)
  obtain fs1 where m: "mkdirp_from (pre @ [c]) cs fs1 = Inr fs'" and d: "node_at fs1 (pre @ [c]) = Some Dir"
  proof (cases "node_at fs (pre @ [c])")
    case None
    with Cons.prems(1) have "mkdirp_from (pre @ [c]) cs (AList.update (pre @ [c]) Dir fs) = Inr fs'"
      by simp
    moreover have "node_at (AList.update (pre @ [c]) Dir fs) (pre @ [c]) = Some Dir"
      by (simp add: node_at_update)
    ultimately show ?thesis using that by blast
  next
    case (Some x)
    with Cons.prems(1) show ?thesis using that by (cases x) auto
  qed
  show ?case
  proof (cases k)
    case 0
    with Cons.prems show ?thesis by simp
  next
    case (Suc j)
    show ?thesis
    proof (cases "j = 0")
      case True
      then show ?thesis using Suc mkdirp_from_keeps[OF m d] by simp
    next
      case False
      then have "node_at fs' ((pre @ [c]) @ take j cs) = Some Dir"
        using Cons.IH[OF m, of j] Cons.prems(3) Suc by simp
      then show ?thesis using Suc by simp
    qed
  qed
qed

text \<open>Where every directory along the path is there, \<open>mkdir -p\<close> changes nothing.\<close>

lemma mkdirp_from_idem:
  "(\<And>k. 0 < k \<Longrightarrow> k \<le> length cs \<Longrightarrow> node_at fs (pre @ take k cs) = Some Dir)
     \<Longrightarrow> mkdirp_from pre cs fs = Inr fs"
proof (induction cs arbitrary: pre)
  case Nil
  show ?case by simp
next
  case (Cons c cs)
  have d: "node_at fs (pre @ [c]) = Some Dir" using Cons.prems[of 1] by simp
  have "mkdirp_from (pre @ [c]) cs fs = Inr fs"
  proof (rule Cons.IH)
    fix k assume "0 < k" "k \<le> length cs"
    then show "node_at fs ((pre @ [c]) @ take k cs) = Some Dir"
      using Cons.prems[of "Suc k"] by simp
  qed
  then show ?case using d by simp
qed

lemma mkdirSync_run:
  "resolve (cwd w) s = Inr p \<Longrightarrow>
   mkdirSync s r w =
     (case (if r then fs_mkdirp p else fs_mkdir p) (files w) of
        Inl e \<Rightarrow> (Inl e, w\<lparr>trace := trace w @ [FsMkdir p]\<rparr>)
      | Inr fs \<Rightarrow> (Inr (), w\<lparr>trace := trace w @ [FsMkdir p], files := fs\<rparr>))"
  by (simp add: mkdirSync_def io_bind_emit with_path_def lift_fs_def split: sum.splits)

lemma mkdirSync_success:
  assumes "mkdirSync s r w = (Inr u, w')"
  shows "\<exists>p fs. resolve (cwd w) s = Inr p \<and> (if r then fs_mkdirp p else fs_mkdir p) (files w) = Inr fs
           \<and> w' = w\<lparr>trace := trace w @ [FsMkdir p], files := fs\<rparr>"
  using assms
  by (auto simp: mkdirSync_def io_bind_emit with_path_def lift_fs_def split: sum.splits)

lemma writeFileSync_run:
  "resolve (cwd w) s = Inr p \<Longrightarrow> \<not> dirlike s \<Longrightarrow>
   writeFileSync s c w =
     (case fs_write p c (files w) of
        Inl e \<Rightarrow> (Inl e, w\<lparr>trace := trace w @ [FsWrite p]\<rparr>)
      | Inr fs \<Rightarrow> (Inr (), w\<lparr>trace := trace w @ [FsWrite p], files := fs\<rparr>))"
  by (simp add: writeFileSync_def io_bind_emit with_path_def lift_fs_def split: sum.splits)

lemma writeFileSync_success:
  assumes "writeFileSync s c w = (Inr u, w')"
  shows "\<exists>p fs. resolve (cwd w) s = Inr p \<and> \<not> dirlike s \<and> fs_write p c (files w) = Inr fs
           \<and> w' = w\<lparr>trace := trace w @ [FsWrite p], files := fs\<rparr>"
  using assms
  by (auto simp: writeFileSync_def io_bind_emit with_path_def lift_fs_def io_throw_def
           split: sum.splits if_splits)

lemma existsSync_file:
  "resolve (cwd w) s = Inr p \<Longrightarrow> node_at (files w) p = Some (File c) \<Longrightarrow> \<not> dirlike s
     \<Longrightarrow> existsSync s w = (Inr True, w)"
  by (simp add: existsSync_def)

lemma readFileSync_file:
  "resolve (cwd w) s = Inr p \<Longrightarrow> node_at (files w) p = Some (File c) \<Longrightarrow> \<not> dirlike s
     \<Longrightarrow> readFileSync s w = (Inr c, w)"
  by (simp add: readFileSync_def with_path_def fs_read_def)

lemma existsSync_world: "existsSync s w = (r, w') \<Longrightarrow> w' = w"
  by (auto simp: existsSync_def split: sum.splits error.splits option.splits node.splits)

lemma readFileSync_success:
  assumes "readFileSync s w = (Inr c, w')"
  shows "w' = w \<and> \<not> dirlike s \<and> (\<exists>p. resolve (cwd w) s = Inr p \<and> node_at (files w) p = Some (File c))"
  using assms
  by (auto simp: readFileSync_def with_path_def fs_read_def
           split: sum.splits if_splits option.splits node.splits)

section \<open>\<open>writeFile\<close>, \<open>writeJsonFile\<close>, \<open>readJsonFile\<close>\<close>

lemma steps_Nil_success: "steps [] w = (Inr u, w') \<Longrightarrow> w' = w"
  by (simp add: io_return_def)

lemma steps2_success:
  assumes "steps [a, b] w = (Inr u, w')"
  shows "\<exists>w1. a w = (Inr (), w1) \<and> b w1 = (Inr (), w')"
proof -
  from steps_Cons_success[OF assms] obtain w1 where
    1: "a w = (Inr (), w1)" "steps [b] w1 = (Inr (), w')" by blast
  from steps_Cons_success[OF 1(2)] obtain w2 where
    2: "b w1 = (Inr (), w2)" "steps [] w2 = (Inr (), w')" by blast
  show ?thesis using 1(1) 2 steps_Nil_success by blast
qed

lemma writeFile_success:
  assumes "writeFile s c w = (Inr u, w')"
  shows "\<exists>p D fs1 fs2. resolve (cwd w) s = Inr p \<and> \<not> dirlike s
           \<and> resolve (cwd w) (path_dirname s) = Inr D
           \<and> fs_mkdirp D (files w) = Inr fs1 \<and> fs_write p (js_trim c) fs1 = Inr fs2
           \<and> w' = w\<lparr>trace := trace w @ [FsMkdir D, FsWrite p], files := fs2\<rparr>"
proof -
  from assms obtain w1 where
    m: "mkdirSync (path_dirname s) True w = (Inr (), w1)" and
    wr: "writeFileSync s (js_trim c) w1 = (Inr (), w')"
    using steps2_success[OF assms[unfolded writeFile_def]] by blast
  from mkdirSync_success[OF m] obtain D fs1 where
    D: "resolve (cwd w) (path_dirname s) = Inr D" "fs_mkdirp D (files w) = Inr fs1"
       "w1 = w\<lparr>trace := trace w @ [FsMkdir D], files := fs1\<rparr>"
    by auto
  from writeFileSync_success[OF wr] obtain p fs2 where
    p: "resolve (cwd w1) s = Inr p" "\<not> dirlike s" "fs_write p (js_trim c) (files w1) = Inr fs2"
       "w' = w1\<lparr>trace := trace w1 @ [FsWrite p], files := fs2\<rparr>"
    by auto
  show ?thesis using D p by auto
qed

lemma writeFile_run:
  assumes "resolve (cwd w) s = Inr p" "\<not> dirlike s" "resolve (cwd w) (path_dirname s) = Inr D"
    "fs_mkdirp D (files w) = Inr fs1" "fs_write p (js_trim c) fs1 = Inr fs2"
  shows "writeFile s c w
         = (Inr (), w\<lparr>trace := trace w @ [FsMkdir D, FsWrite p], files := fs2\<rparr>)"
  using assms
  by (simp add: writeFile_def io_bind_def mkdirSync_run writeFileSync_run io_return_def)

lemma readJsonFile_file:
  assumes "resolve (cwd w) s = Inr p" "node_at (files w) p = Some (File c)" "\<not> dirlike s"
  shows "readJsonFile s w = (case JSON_parse c of None \<Rightarrow> (Inl SyntaxError, w) | Some v \<Rightarrow> (Inr v, w))"
  using assms
  by (simp add: readJsonFile_def io_bind_def existsSync_file readFileSync_file io_throw_def io_return_def
           split: option.splits)

lemma readJsonFile_success:
  assumes "readJsonFile s w = (Inr v, w')"
  shows "w' = w \<and> \<not> dirlike s \<and>
         (\<exists>p c. resolve (cwd w) s = Inr p \<and> node_at (files w) p = Some (File c) \<and> JSON_parse c = Some v)"
proof -
  from assms obtain b w1 where e: "existsSync s w = (Inr b, w1)"
    and r: "(if \<not> b then io_throw (FileNotFound s)
             else io_bind (readFileSync s)
                    (\<lambda>t. case JSON_parse t of None \<Rightarrow> io_throw SyntaxError | Some v \<Rightarrow> io_return v)) w1
            = (Inr v, w')"
    unfolding readJsonFile_def by (auto dest!: io_bind_success)
  have w1: "w1 = w" using existsSync_world[OF e] .
  from r have b by (auto simp: io_throw_def split: if_splits)
  with r obtain t w2 where rd: "readFileSync s w1 = (Inr t, w2)"
    and pr: "(case JSON_parse t of None \<Rightarrow> io_throw SyntaxError | Some v \<Rightarrow> io_return v) w2 = (Inr v, w')"
    by (auto dest!: io_bind_success)
  from readFileSync_success[OF rd] w1 obtain p where
    p: "w2 = w" "\<not> dirlike s" "resolve (cwd w) s = Inr p" "node_at (files w) p = Some (File t)"
    by auto
  from pr have "JSON_parse t = Some v \<and> w' = w2"
    by (auto simp: io_throw_def io_return_def split: option.splits)
  then show ?thesis using p by auto
qed

lemma writeJsonFile_then_read:
  assumes "wf_json v" "writeJsonFile s v w = (Inr u, w')"
  shows "readJsonFile s w' = (Inr v, w')"
proof -
  from writeFile_success[OF assms(2)[unfolded writeJsonFile_def]] obtain p D fs1 fs2 where
    p: "resolve (cwd w) s = Inr p" "\<not> dirlike s"
       "fs_write p (js_trim (JSON_stringify2 v)) fs1 = Inr fs2"
       "files w' = fs2" "cwd w' = cwd w"
    by auto
  have trim: "js_trim (JSON_stringify2 v) = JSON_stringify2 v"
    by (simp add: JSON_stringify2_def js_trim_ser)
  have n: "node_at (files w') p = Some (File (JSON_stringify2 v))"
    using fs_write_node_at[OF p(3), of p] p(4) trim by simp
  have c: "resolve (cwd w') s = Inr p" using p(1,5) by simp
  show ?thesis
    using readJsonFile_file[OF c n p(2)] JSON_parse_stringify2[OF assms(1)] by simp
qed






section \<open>\<open>updateJsonFile\<close>\<close>

lemma writeFile_again:
  assumes "writeFile s c w = (Inr u, w1)"
  shows "\<exists>w2. writeFile s c' w1 = (Inr (), w2)"
proof -
  from writeFile_success[OF assms] obtain p D fs1 fs2 where
    p: "resolve (cwd w) s = Inr p" "\<not> dirlike s"
    and D: "resolve (cwd w) (path_dirname s) = Inr D" "fs_mkdirp D (files w) = Inr fs1"
    and wr: "fs_write p (js_trim c) fs1 = Inr fs2"
    and w1: "w1 = w\<lparr>trace := trace w @ [FsMkdir D, FsWrite p], files := fs2\<rparr>"
    by blast
  note ws = fs_write_success[OF wr]
  have n2: "\<And>q. node_at fs2 q = (if q = p then Some (File (js_trim c)) else node_at fs1 q)"
    using fs_write_node_at[OF wr] by simp
  have dirs: "\<And>k. 0 < k \<Longrightarrow> k \<le> length D \<Longrightarrow> node_at fs2 ([] @ take k D) = Some Dir"
  proof -
    fix k assume k: "0 < k" "k \<le> length D"
    have d: "node_at fs1 ([] @ take k D) = Some Dir"
      using mkdirp_from_made[OF D(2)[unfolded fs_mkdirp_def] k] .
    then have "take k D \<noteq> p" using ws(3) by auto
    then show "node_at fs2 ([] @ take k D) = Some Dir" using d n2 by simp
  qed
  have m: "fs_mkdirp D (files w1) = Inr fs2"
    unfolding fs_mkdirp_def using mkdirp_from_idem[of D fs2 "[]"] dirs w1 by simp
  have "butlast p \<noteq> p" using ws(1) by (metis append_butlast_last_id self_append_conv snoc_eq_iff_butlast not_Cons_self2)
  then have par: "node_at fs2 (butlast p) = Some Dir" using n2 ws(4) by simp
  have "node_at fs2 p = Some (File (js_trim c))" using n2 by simp
  then have w2: "fs_write p (js_trim c') fs2 = Inr (AList.update p (File (js_trim c')) fs2)"
    using par by (simp add: fs_write_def)
  have c1: "resolve (cwd w1) s = Inr p" "resolve (cwd w1) (path_dirname s) = Inr D"
    using p D w1 by simp_all
  show ?thesis using writeFile_run[OF c1(1) p(2) c1(2) m w2] by blast
qed

lemma updateJsonFile_fresh:
  assumes "existsSync s w = (Inr False, w)"
  shows "updateJsonFile s new w = writeJsonFile s (spread2 (JObj []) new) w"
  using assms by (simp add: updateJsonFile_def fileExists_def io_bind_def io_return_def)

lemma updateJsonFile_existing:
  assumes "readJsonFile s w = (Inr cur, w)"
  shows "updateJsonFile s new w = writeJsonFile s (spread2 cur new) w"
proof -
  from readJsonFile_success[OF assms] obtain p c where
    "\<not> dirlike s" "resolve (cwd w) s = Inr p" "node_at (files w) p = Some (File c)" by blast
  then have "existsSync s w = (Inr True, w)" by (rule existsSync_file[rotated 2])
  then show ?thesis using assms
    by (simp add: updateJsonFile_def fileExists_def io_bind_def)
qed

text \<open>One update of a file that holds \<open>cur\<close> (or of no file: \<open>cur\<close> is the empty object),
  after a first write of the file has gone through.\<close>

lemma update_after_write:
  assumes prev: "writeJsonFile s v0 w0 = (Inr u, w)"
    and cur: "readJsonFile s w = (Inr cur, w)"
    and wf: "wf_json (spread2 cur new)"
  shows "\<exists>w'. updateJsonFile s new w = (Inr (), w') \<and> readJsonFile s w' = (Inr (spread2 cur new), w')
            \<and> writeJsonFile s (spread2 cur new) w = (Inr (), w')"
proof -
  from writeFile_again[OF prev[unfolded writeJsonFile_def]] obtain w' where
    w': "writeJsonFile s (spread2 cur new) w = (Inr (), w')"
    unfolding writeJsonFile_def by blast
  then show ?thesis
    using updateJsonFile_existing[OF cur] writeJsonFile_then_read[OF wf w'] by auto
qed

subsection \<open>The merge of two objects\<close>

lemma fst_obj_ins: "fst ` set (obj_ins k v ps) = insert k (fst ` set ps)"
  by (induction ps) auto

lemma map_of_obj_ins: "k \<notin> fst ` set ps \<Longrightarrow> map_of (obj_ins k v ps) = (map_of ps)(k \<mapsto> v)"
proof (induction ps)
  case Nil
  show ?case by simp
next
  case (Cons p ps)
  then have "fst p \<noteq> k" by auto
  with Cons show ?case by (cases p) (auto simp: fun_upd_twist)
qed

lemma map_of_obj_put: "map_of (obj_put ps kv) = (map_of ps)(fst kv \<mapsto> snd kv)"
  by (simp add: obj_put_def update_conv' map_of_obj_ins)

lemma fst_obj_put: "fst ` set (obj_put ps kv) = insert (fst kv) (fst ` set ps)"
proof (cases "fst kv \<in> fst ` set ps")
  case True
  then have "map fst (AList.update (fst kv) (snd kv) ps) = map fst ps"
    by (simp add: update_keys)
  then have "fst ` set (AList.update (fst kv) (snd kv) ps) = fst ` set ps"
    by (metis set_map)
  then show ?thesis using True by (simp add: obj_put_def insert_absorb)
next
  case False
  then show ?thesis by (simp add: obj_put_def fst_obj_ins)
qed

lemma map_of_foldl_obj_put:
  "map_of (foldl obj_put ps kvs) k =
     (case map_of (rev kvs) k of None \<Rightarrow> map_of ps k | Some v \<Rightarrow> Some v)"
proof (induction kvs arbitrary: ps)
  case Nil
  show ?case by simp
next
  case (Cons kv kvs)
  show ?case
    by (cases kv) (auto simp: Cons map_of_obj_put map_of_append split: option.splits)
qed

lemma map_of_rev_distinct: "distinct (map fst kvs) \<Longrightarrow> map_of (rev kvs) = map_of kvs"
  by (rule map_of_inject_set[THEN iffD2]) (auto simp: rev_map[symmetric])

lemma obj_ok_distinct: "obj_ok ps \<Longrightarrow> distinct (map fst ps)"
  by (induction ps) auto

text \<open>Top-level keys of the new object are added or take the new value whole; the other
  keys keep their value.\<close>

lemma spread2_lookup:
  assumes "obj_ok n"
  shows "\<exists>m. spread2 (JObj c) (JObj n) = JObj m \<and>
           (\<forall>k. map_of m k = (case map_of n k of None \<Rightarrow> map_of (obj_of c) k | Some v \<Rightarrow> Some v))"
  using map_of_rev_distinct[OF obj_ok_distinct[OF assms]]
  by (auto simp: spread2_def map_of_foldl_obj_put obj_of_def split: option.splits)

subsection \<open>The merge of two objects that are in order is in order\<close>

lemma key_before_asym: "key_before a b \<Longrightarrow> \<not> key_before b a"
  by (auto simp: key_before_def split: option.splits)

lemma key_before_trans: "key_before a b \<Longrightarrow> key_before b c \<Longrightarrow> key_before a c"
  by (auto simp: key_before_def split: option.splits)

lemma obj_ok_keys: "map fst ps = map fst qs \<Longrightarrow> obj_ok ps = obj_ok qs"
proof (induction ps arbitrary: qs)
  case Nil
  then show ?case by simp
next
  case (Cons p ps)
  then obtain q qs' where q: "qs = q # qs'" "fst p = fst q" "map fst ps = map fst qs'"
    by (cases qs) auto
  have s: "fst ` set ps = fst ` set qs'" using q(3) by (metis set_map)
  have "obj_ok ps = obj_ok qs'" using Cons.IH[OF q(3)] .
  moreover have "(\<forall>x \<in> set ps. \<not> key_before (fst x) (fst p)) = (\<forall>x \<in> set qs'. \<not> key_before (fst x) (fst q))"
    using s q(2) by (metis (no_types, lifting) image_iff)
  ultimately show ?case using q s by simp
qed

lemma set_obj_ins: "set (obj_ins k v ps) = insert (k, v) (set ps)"
  by (induction ps) auto

lemma obj_ok_obj_ins:
  "obj_ok ps \<Longrightarrow> k \<notin> fst ` set ps \<Longrightarrow> obj_ok (obj_ins k v ps)"
proof (induction ps)
  case Nil
  show ?case by simp
next
  case (Cons p ps)
  show ?case
  proof (cases "key_before k (fst p)")
    case True
    have "\<forall>q \<in> set (p # ps). \<not> key_before (fst q) k"
    proof
      fix q assume "q \<in> set (p # ps)"
      then consider "q = p" | "q \<in> set ps" by auto
      then show "\<not> key_before (fst q) k"
      proof cases
        case 1 then show ?thesis using True key_before_asym by blast
      next
        case 2
        then have "\<not> key_before (fst q) (fst p)" using Cons.prems(1) by simp
        then show ?thesis using True key_before_trans by blast
      qed
    qed
    then show ?thesis using True Cons.prems by simp
  next
    case False
    have "obj_ok (obj_ins k v ps)" using Cons by simp
    moreover have "fst p \<notin> fst ` set (obj_ins k v ps)"
      using Cons.prems by (auto simp: set_obj_ins)
    moreover have "\<forall>q \<in> set (obj_ins k v ps). \<not> key_before (fst q) (fst p)"
      using Cons.prems(1) False by (auto simp: set_obj_ins)
    ultimately show ?thesis using False by simp
  qed
qed

lemma obj_ok_obj_put: "obj_ok ps \<Longrightarrow> obj_ok (obj_put ps kv)"
proof (cases "fst kv \<in> fst ` set ps")
  case True
  assume ok: "obj_ok ps"
  have "map fst (AList.update (fst kv) (snd kv) ps) = map fst ps"
    using True by (simp add: update_keys)
  then have "obj_ok (AList.update (fst kv) (snd kv) ps) = obj_ok ps"
    by (rule obj_ok_keys)
  then show ?thesis using ok True by (simp add: obj_put_def)
next
  case False
  assume "obj_ok ps"
  then show ?thesis using False by (simp add: obj_put_def obj_ok_obj_ins)
qed

lemma obj_ok_foldl: "obj_ok ps \<Longrightarrow> obj_ok (foldl obj_put ps kvs)"
  by (induction kvs arbitrary: ps) (simp_all add: obj_ok_obj_put)

lemma set_update_subset: "set (AList.update k v ps) \<subseteq> insert (k, v) (set ps)"
  by (induction ps) auto

lemma set_obj_put: "set (obj_put ps kv) \<subseteq> insert kv (set ps)"
  using set_update_subset[of "fst kv" "snd kv" ps]
  by (auto simp: obj_put_def set_obj_ins)

lemma set_foldl_obj_put: "set (foldl obj_put ps kvs) \<subseteq> set ps \<union> set kvs"
proof (induction kvs arbitrary: ps)
  case Nil
  show ?case by simp
next
  case (Cons kv kvs)
  show ?case using Cons[of "obj_put ps kv"] set_obj_put[of ps kv] by auto
qed

lemma wf_json_spread2:
  assumes "wf_json (JObj c)" "wf_json (JObj n)"
  shows "wf_json (spread2 (JObj c) (JObj n))"
proof -
  have c: "foldl obj_put [] c = c" using assms(1) obj_of_canonical[of c] by (simp add: obj_of_def)
  have "obj_ok (foldl obj_put c n)" using assms(1) by (simp add: obj_ok_foldl)
  moreover have "\<forall>q \<in> set (foldl obj_put c n). wf_json (snd q)"
    using set_foldl_obj_put[of c n] assms by auto
  ultimately show ?thesis by (simp add: spread2_def c)
qed

lemma updateJsonFile_merges:
  assumes "wf_json (JObj c)" "wf_json (JObj n)"
    and "readJsonFile s w = (Inr (JObj c), w)"
    and "updateJsonFile s (JObj n) w = (Inr (), w')"
  shows "\<exists>m. readJsonFile s w' = (Inr (JObj m), w') \<and>
           (\<forall>k. map_of m k = (case map_of n k of None \<Rightarrow> map_of c k | Some v \<Rightarrow> Some v))"
proof -
  have n: "obj_ok n" and c: "obj_of c = c" using assms(1,2) by (simp_all add: obj_of_canonical)
  from spread2_lookup[OF n, of c] obtain m where
    m: "spread2 (JObj c) (JObj n) = JObj m"
       "\<forall>k. map_of m k = (case map_of n k of None \<Rightarrow> map_of (obj_of c) k | Some v \<Rightarrow> Some v)"
    by blast
  have "writeJsonFile s (spread2 (JObj c) (JObj n)) w = (Inr (), w')"
    using assms(4) updateJsonFile_existing[OF assms(3)] by simp
  then have "readJsonFile s w' = (Inr (spread2 (JObj c) (JObj n)), w')"
    using writeJsonFile_then_read[OF wf_json_spread2[OF assms(1,2)]] by blast
  moreover have "\<forall>k. map_of m k = (case map_of n k of None \<Rightarrow> map_of c k | Some v \<Rightarrow> Some v)"
    using m(2) unfolding c .
  ultimately show ?thesis unfolding m(1) by blast
qed

subsection \<open>The examples of the specification\<close>

lemma spread2_examples:
  "spread2 (JObj []) (JObj [(''a'', JNum 1)]) = JObj [(''a'', JNum 1)]"
  "spread2 (JObj [(''a'', JNum 1)]) (JObj [(''b'', JNum 2)]) = JObj [(''a'', JNum 1), (''b'', JNum 2)]"
  "spread2 (JObj [(''a'', JNum 1), (''b'', JNum 2)]) (JObj [(''a'', JNum 3)])
     = JObj [(''a'', JNum 3), (''b'', JNum 2)]"
  "spread2 (JObj []) (JObj [(''a'', JObj [(''x'', JNum 1)])]) = JObj [(''a'', JObj [(''x'', JNum 1)])]"
  "spread2 (JObj [(''a'', JObj [(''x'', JNum 1)])]) (JObj [(''a'', JObj [(''y'', JNum 2)])])
     = JObj [(''a'', JObj [(''y'', JNum 2)])]"
  by code_simp+

lemma wf_examples:
  "wf_json (JObj [(''a'', JNum 1)])"
  "wf_json (JObj [(''a'', JNum 1), (''b'', JNum 2)])"
  "wf_json (JObj [(''a'', JNum 3), (''b'', JNum 2)])"
  "wf_json (JObj [(''a'', JObj [(''x'', JNum 1)])])"
  "wf_json (JObj [(''a'', JObj [(''y'', JNum 2)])])"
  "wf_json (JObj [(''b'', JNum 2)])"
  by code_simp+

lemma update_chain:
  assumes fresh: "existsSync s w = (Inr False, w)"
    and first: "updateJsonFile s (JObj [(''a'', JNum 1)]) w = (Inr (), w1)"
  shows "\<exists>w2 w3.
      updateJsonFile s (JObj [(''b'', JNum 2)]) w1 = (Inr (), w2) \<and>
      readJsonFile s w2 = (Inr (JObj [(''a'', JNum 1), (''b'', JNum 2)]), w2) \<and>
      updateJsonFile s (JObj [(''a'', JNum 3)]) w2 = (Inr (), w3) \<and>
      readJsonFile s w3 = (Inr (JObj [(''a'', JNum 3), (''b'', JNum 2)]), w3)"
proof -
  have w1: "writeJsonFile s (JObj [(''a'', JNum 1)]) w = (Inr (), w1)"
    using first updateJsonFile_fresh[OF fresh, of "JObj [(''a'', JNum 1)]"]
    by (simp only: spread2_examples)
  have r1: "readJsonFile s w1 = (Inr (JObj [(''a'', JNum 1)]), w1)"
    using writeJsonFile_then_read[OF wf_examples(1) w1] .
  have wf2: "wf_json (spread2 (JObj [(''a'', JNum 1)]) (JObj [(''b'', JNum 2)]))"
    by (simp only: spread2_examples wf_examples)
  from update_after_write[OF w1 r1 wf2, unfolded spread2_examples] obtain w2 where
    w2: "updateJsonFile s (JObj [(''b'', JNum 2)]) w1 = (Inr (), w2)"
        "readJsonFile s w2 = (Inr (JObj [(''a'', JNum 1), (''b'', JNum 2)]), w2)"
        "writeJsonFile s (JObj [(''a'', JNum 1), (''b'', JNum 2)]) w1 = (Inr (), w2)"
    by blast
  have wf3: "wf_json (spread2 (JObj [(''a'', JNum 1), (''b'', JNum 2)]) (JObj [(''a'', JNum 3)]))"
    by (simp only: spread2_examples wf_examples)
  from update_after_write[OF w2(3) w2(2) wf3, unfolded spread2_examples] obtain w3 where
    w3: "updateJsonFile s (JObj [(''a'', JNum 3)]) w2 = (Inr (), w3)"
        "readJsonFile s w3 = (Inr (JObj [(''a'', JNum 3), (''b'', JNum 2)]), w3)"
    by blast
  show ?thesis using w2 w3 by blast
qed

lemma update_nested:
  assumes fresh: "existsSync s w = (Inr False, w)"
    and first: "updateJsonFile s (JObj [(''a'', JObj [(''x'', JNum 1)])]) w = (Inr (), w1)"
  shows "\<exists>w2.
      updateJsonFile s (JObj [(''a'', JObj [(''y'', JNum 2)])]) w1 = (Inr (), w2) \<and>
      readJsonFile s w2 = (Inr (JObj [(''a'', JObj [(''y'', JNum 2)])]), w2)"
proof -
  have w1: "writeJsonFile s (JObj [(''a'', JObj [(''x'', JNum 1)])]) w = (Inr (), w1)"
    using first updateJsonFile_fresh[OF fresh, of "JObj [(''a'', JObj [(''x'', JNum 1)])]"]
    by (simp only: spread2_examples)
  have r1: "readJsonFile s w1 = (Inr (JObj [(''a'', JObj [(''x'', JNum 1)])]), w1)"
    using writeJsonFile_then_read[OF wf_examples(4) w1] .
  have wf2: "wf_json (spread2 (JObj [(''a'', JObj [(''x'', JNum 1)])]) (JObj [(''a'', JObj [(''y'', JNum 2)])]))"
    by (simp only: spread2_examples wf_examples)
  from update_after_write[OF w1 r1 wf2, unfolded spread2_examples]
  show ?thesis by blast
qed

text \<open>
  C1. \<open>updateJsonFile\<close> merges the top level only. On a path where nothing exists, the
  update with \<open>{a:1}\<close> followed by the update with \<open>{b:2}\<close> leaves \<open>{a:1, b:2}\<close>, and a
  further update with \<open>{a:3}\<close> leaves \<open>{a:3, b:2}\<close>; once the first update has gone through,
  the later ones do. The update with \<open>{a:{x:1}}\<close> followed by the update with \<open>{a:{y:2}}\<close>
  leaves \<open>{a:{y:2}}\<close>. In general, after an update of a file that holds an object, the
  file holds an object in which every key of the new data has the new value, whole, and
  every other key has the value it had.
\<close>

theorem updateJsonFile_shallow_merge:
  "(\<forall>w1. existsSync p w = (Inr False, w) \<longrightarrow>
      updateJsonFile p (JObj [(''a'', JNum 1)]) w = (Inr (), w1) \<longrightarrow>
      (\<exists>w2 w3.
         updateJsonFile p (JObj [(''b'', JNum 2)]) w1 = (Inr (), w2) \<and>
         readJsonFile p w2 = (Inr (JObj [(''a'', JNum 1), (''b'', JNum 2)]), w2) \<and>
         updateJsonFile p (JObj [(''a'', JNum 3)]) w2 = (Inr (), w3) \<and>
         readJsonFile p w3 = (Inr (JObj [(''a'', JNum 3), (''b'', JNum 2)]), w3))) \<and>
   (\<forall>w1. existsSync p w = (Inr False, w) \<longrightarrow>
      updateJsonFile p (JObj [(''a'', JObj [(''x'', JNum 1)])]) w = (Inr (), w1) \<longrightarrow>
      (\<exists>w2.
         updateJsonFile p (JObj [(''a'', JObj [(''y'', JNum 2)])]) w1 = (Inr (), w2) \<and>
         readJsonFile p w2 = (Inr (JObj [(''a'', JObj [(''y'', JNum 2)])]), w2))) \<and>
   (\<forall>c n w'. wf_json (JObj c) \<longrightarrow> wf_json (JObj n) \<longrightarrow>
      readJsonFile p w = (Inr (JObj c), w) \<longrightarrow>
      updateJsonFile p (JObj n) w = (Inr (), w') \<longrightarrow>
      (\<exists>m. readJsonFile p w' = (Inr (JObj m), w') \<and>
           (\<forall>k. map_of m k = (case map_of n k of None \<Rightarrow> map_of c k | Some v \<Rightarrow> Some v))))"
  using update_chain[of p w] update_nested[of p w] updateJsonFile_merges[of _ _ p w]
  by blast


lemma existsSync_fresh_example: "existsSync ''x/p.json'' world0 = (Inr False, world0)"
  by code_simp

lemma update_example_runs:
  "fst (updateJsonFile ''x/p.json'' (JObj [(''a'', JNum 1)]) world0) = Inr ()"
  "fst (updateJsonFile ''x/p.json'' (JObj [(''a'', JObj [(''x'', JNum 1)])]) world0) = Inr ()"
  by code_simp+

theorem updateJsonFile_shallow_merge_witness:
  "fst (readJsonFile ''x/p.json''
          (snd (updateJsonFile ''x/p.json'' (JObj [(''b'', JNum 2)])
             (snd (updateJsonFile ''x/p.json'' (JObj [(''a'', JNum 1)]) world0)))))
     = Inr (JObj [(''a'', JNum 1), (''b'', JNum 2)]) \<and>
   fst (readJsonFile ''x/p.json''
          (snd (updateJsonFile ''x/p.json'' (JObj [(''a'', JObj [(''y'', JNum 2)])])
             (snd (updateJsonFile ''x/p.json'' (JObj [(''a'', JObj [(''x'', JNum 1)])]) world0)))))
     = Inr (JObj [(''a'', JObj [(''y'', JNum 2)])])"
proof -
  let ?p = "''x/p.json''"
  let ?w1 = "snd (updateJsonFile ?p (JObj [(''a'', JNum 1)]) world0)"
  let ?v1 = "snd (updateJsonFile ?p (JObj [(''a'', JObj [(''x'', JNum 1)])]) world0)"
  have a: "updateJsonFile ?p (JObj [(''a'', JNum 1)]) world0 = (Inr (), ?w1)"
    using update_example_runs(1) by (metis prod.collapse)
  have b: "updateJsonFile ?p (JObj [(''a'', JObj [(''x'', JNum 1)])]) world0 = (Inr (), ?v1)"
    using update_example_runs(2) by (metis prod.collapse)
  note inst = updateJsonFile_shallow_merge[of ?p world0]
  from inst existsSync_fresh_example a obtain w2 where
    "updateJsonFile ?p (JObj [(''b'', JNum 2)]) ?w1 = (Inr (), w2)"
    "readJsonFile ?p w2 = (Inr (JObj [(''a'', JNum 1), (''b'', JNum 2)]), w2)"
    by blast
  then have 1: "fst (readJsonFile ?p (snd (updateJsonFile ?p (JObj [(''b'', JNum 2)]) ?w1)))
                = Inr (JObj [(''a'', JNum 1), (''b'', JNum 2)])"
    by simp
  from inst existsSync_fresh_example b obtain v2 where
    "updateJsonFile ?p (JObj [(''a'', JObj [(''y'', JNum 2)])]) ?v1 = (Inr (), v2)"
    "readJsonFile ?p v2 = (Inr (JObj [(''a'', JObj [(''y'', JNum 2)])]), v2)"
    by blast
  then have 2: "fst (readJsonFile ?p (snd (updateJsonFile ?p (JObj [(''a'', JObj [(''y'', JNum 2)])]) ?v1)))
                = Inr (JObj [(''a'', JObj [(''y'', JNum 2)])])"
    by simp
  show ?thesis using 1 2 by blast
qed




section \<open>The recursive copy\<close>

lemma node_at_update_other: "q \<noteq> p \<Longrightarrow> node_at (AList.update p n fs) q = node_at fs q"
  by (simp add: node_at_def update_conv')

lemma node_at_update_same: "p \<noteq> [] \<Longrightarrow> node_at (AList.update p n fs) p = Some n"
  by (simp add: node_at_def update_conv')

lemma node_at_update_Dir: "node_at (AList.update p Dir fs) p = Some Dir"
  by (simp add: node_at_def update_conv')

text \<open>\<open>mkdir -p\<close> touches the directories along its path and nothing else.\<close>

lemma mkdirp_from_other:
  "mkdirp_from pre cs fs = Inr fs' \<Longrightarrow> (\<And>k. 0 < k \<Longrightarrow> k \<le> length cs \<Longrightarrow> q \<noteq> pre @ take k cs)
     \<Longrightarrow> node_at fs' q = node_at fs q"
proof (induction cs arbitrary: pre fs)
  case Nil
  then show ?case by simp
next
  case (Cons c cs)
  have q1: "q \<noteq> pre @ [c]" using Cons.prems(2)[of 1] by simp
  have rest: "\<And>k. 0 < k \<Longrightarrow> k \<le> length cs \<Longrightarrow> q \<noteq> (pre @ [c]) @ take k cs"
    using Cons.prems(2)[of "Suc k" for k] by simp
  show ?case
  proof (cases "node_at fs (pre @ [c])")
    case None
    with Cons.prems(1) have m: "mkdirp_from (pre @ [c]) cs (AList.update (pre @ [c]) Dir fs) = Inr fs'"
      by simp
    have "node_at fs' q = node_at (AList.update (pre @ [c]) Dir fs) q"
      using Cons.IH[OF m rest] by simp
    then show ?thesis using q1 by (simp add: node_at_update_other)
  next
    case (Some x)
    with Cons.prems(1) show ?thesis using Cons.IH[OF _ rest] by (cases x) auto
  qed
qed

lemma fs_mkdirp_other:
  "fs_mkdirp p fs = Inr fs' \<Longrightarrow> \<not> prefix q p \<Longrightarrow> node_at fs' q = node_at fs q"
  unfolding fs_mkdirp_def
  by (rule mkdirp_from_other) (auto simp: take_is_prefix)

lemma fs_mkdirp_made: "fs_mkdirp p fs = Inr fs' \<Longrightarrow> node_at fs' p = Some Dir"
proof (cases "p = []")
  case True
  then show ?thesis by (simp add: node_at_def)
next
  case False
  assume "fs_mkdirp p fs = Inr fs'"
  then show ?thesis
    using mkdirp_from_made[of "[]" p fs fs' "length p"] False by (simp add: fs_mkdirp_def)
qed

text \<open>What \<open>copy_entries\<close> leaves: outside the copied paths nothing changes, and every
  entry is at its place below the destination.\<close>

lemma copy_entries_other:
  "copy_entries dst es fs = Inr fs' \<Longrightarrow> (\<And>r. r \<in> fst ` set es \<Longrightarrow> q \<noteq> dst @ r)
     \<Longrightarrow> node_at fs' q = node_at fs q"
proof (induction dst es fs rule: copy_entries.induct)
  case (1 dst fs)
  then show ?case by simp
next
  case (2 dst r es fs)
  have q: "q \<noteq> dst @ r" using "2.prems"(2)[of r] by simp
  have rest: "\<And>r'. r' \<in> fst ` set es \<Longrightarrow> q \<noteq> dst @ r'" using "2.prems"(2) by auto
  show ?case
  proof (cases "node_at fs (dst @ r)")
    case None
    with "2.prems"(1) have c: "copy_entries dst es (AList.update (dst @ r) Dir fs) = Inr fs'" by simp
    have "node_at fs' q = node_at (AList.update (dst @ r) Dir fs) q"
      using "2.IH"(1)[OF None c rest] by simp
    then show ?thesis using q by (simp add: node_at_update_other)
  next
    case (Some x)
    show ?thesis
    proof (cases x)
      case (File c)
      with Some "2.prems"(1) show ?thesis by simp
    next
      case Dir
      with Some "2.prems"(1) have c: "copy_entries dst es fs = Inr fs'" by simp
      show ?thesis using "2.IH"(2)[OF Some Dir c rest] by simp
    qed
  qed
next
  case (3 dst r c es fs)
  have q: "q \<noteq> dst @ r" using "3.prems"(2)[of r] by simp
  have rest: "\<And>r'. r' \<in> fst ` set es \<Longrightarrow> q \<noteq> dst @ r'" using "3.prems"(2) by auto
  have nd: "node_at fs (dst @ r) \<noteq> Some Dir" using "3.prems"(1) by (auto split: option.splits node.splits)
  then have c: "copy_entries dst es (AList.update (dst @ r) (File c) fs) = Inr fs'"
    using "3.prems"(1) by (auto split: option.splits node.splits)
  have "node_at fs' q = node_at (AList.update (dst @ r) (File c) fs) q"
  proof (cases "node_at fs (dst @ r)")
    case None
    then show ?thesis using "3.IH"(1)[OF None c rest] by simp
  next
    case (Some x)
    then obtain c' where x: "x = File c'" using nd by (cases x) auto
    show ?thesis using "3.IH"(2)[OF Some x c rest] by simp
  qed
  then show ?case using q by (simp add: node_at_update_other)
qed

lemma copy_entries_copied:
  "copy_entries dst es fs = Inr fs' \<Longrightarrow> distinct (map fst es) \<Longrightarrow> (r, n) \<in> set es
     \<Longrightarrow> r \<noteq> [] \<Longrightarrow> node_at fs' (dst @ r) = Some n"
proof (induction dst es fs rule: copy_entries.induct)
  case (1 dst fs)
  then show ?case by simp
next
  case (2 dst r0 es fs)
  have d: "distinct (map fst es)" "r0 \<notin> fst ` set es" using "2.prems"(2) by auto
  obtain fs1 where c: "copy_entries dst es fs1 = Inr fs'" and n1: "node_at fs1 (dst @ r0) = Some Dir"
    and ih: "(r, n) \<in> set es \<Longrightarrow> node_at fs' (dst @ r) = Some n"
  proof (cases "node_at fs (dst @ r0)")
    case None
    with "2.prems"(1) have c: "copy_entries dst es (AList.update (dst @ r0) Dir fs) = Inr fs'" by simp
    have "node_at (AList.update (dst @ r0) Dir fs) (dst @ r0) = Some Dir"
      by (rule node_at_update_Dir)
    moreover have "(r, n) \<in> set es \<Longrightarrow> node_at fs' (dst @ r) = Some n"
      using "2.IH"(1)[OF None c d(1) _ "2.prems"(4)] by simp
    ultimately show ?thesis using that c by blast
  next
    case (Some x)
    show ?thesis
    proof (cases x)
      case (File c)
      with Some "2.prems"(1) show ?thesis by simp
    next
      case Dir
      with Some "2.prems"(1) have c: "copy_entries dst es fs = Inr fs'" by simp
      have "(r, n) \<in> set es \<Longrightarrow> node_at fs' (dst @ r) = Some n"
        using "2.IH"(2)[OF Some Dir c d(1) _ "2.prems"(4)] by simp
      then show ?thesis using that c Some Dir by blast
    qed
  qed
  show ?case
  proof (cases "(r, n) \<in> set es")
    case True
    then show ?thesis using ih by simp
  next
    case False
    then have e: "r = r0" "n = Dir" using "2.prems"(3) by auto
    have "node_at fs' (dst @ r0) = node_at fs1 (dst @ r0)"
      by (rule copy_entries_other[OF c]) (use d(2) in auto)
    then show ?thesis using e n1 by simp
  qed
next
  case (3 dst r0 c0 es fs)
  have d: "distinct (map fst es)" "r0 \<notin> fst ` set es" using "3.prems"(2) by auto
  have nd: "node_at fs (dst @ r0) \<noteq> Some Dir" using "3.prems"(1) by (auto split: option.splits node.splits)
  then have c: "copy_entries dst es (AList.update (dst @ r0) (File c0) fs) = Inr fs'"
    using "3.prems"(1) by (auto split: option.splits node.splits)
  have ih: "(r, n) \<in> set es \<Longrightarrow> node_at fs' (dst @ r) = Some n"
  proof (cases "node_at fs (dst @ r0)")
    case None
    then show "(r, n) \<in> set es \<Longrightarrow> node_at fs' (dst @ r) = Some n"
      using "3.IH"(1)[OF None c d(1) _ "3.prems"(4)] by simp
  next
    case (Some x)
    then obtain c' where x: "x = File c'" using nd by (cases x) auto
    show "(r, n) \<in> set es \<Longrightarrow> node_at fs' (dst @ r) = Some n"
      using "3.IH"(2)[OF Some x c d(1) _ "3.prems"(4)] by simp
  qed
  show ?case
  proof (cases "(r, n) \<in> set es")
    case True
    then show ?thesis using ih by simp
  next
    case False
    then have e: "r = r0" "n = File c0" using "3.prems"(3) by auto
    have "node_at fs' (dst @ r0) = node_at (AList.update (dst @ r0) (File c0) fs) (dst @ r0)"
      by (rule copy_entries_other[OF c]) (use d(2) in auto)
    then show ?thesis using e "3.prems"(4) by (simp add: node_at_update_same)
  qed
qed

lemma clearjunk_mem: "(q, n) \<in> set (AList.clearjunk fs) \<longleftrightarrow> map_of fs q = Some n"
  using map_of_eq_Some_iff[OF distinct_clearjunk, of fs q n] by (simp add: map_of_clearjunk)

lemma prefix_proper: "prefix S q \<and> q \<noteq> S \<longleftrightarrow> (\<exists>r. r \<noteq> [] \<and> q = S @ r)"
  by (auto simp: prefix_def)

lemma entries_below_mem:
  "(r, n) \<in> set (entries_below S fs) \<longleftrightarrow> r \<noteq> [] \<and> map_of fs (S @ r) = Some n"
proof
  assume "(r, n) \<in> set (entries_below S fs)"
  then obtain q where q: "(q, n) \<in> set (AList.clearjunk fs)" "prefix S q" "q \<noteq> S" "r = drop (length S) q"
    by (auto simp: entries_below_def)
  then obtain r' where "r' \<noteq> []" "q = S @ r'" using prefix_proper by blast
  then show "r \<noteq> [] \<and> map_of fs (S @ r) = Some n" using q clearjunk_mem[of q n fs] by simp
next
  assume a: "r \<noteq> [] \<and> map_of fs (S @ r) = Some n"
  then have "(S @ r, n) \<in> set (AList.clearjunk fs)" by (simp add: clearjunk_mem)
  moreover have "prefix S (S @ r) \<and> S @ r \<noteq> S" using a by simp
  ultimately have "(S @ r, n) \<in> set (filter (\<lambda>e. prefix S (fst e) \<and> fst e \<noteq> S) (AList.clearjunk fs))"
    by simp
  then have "(\<lambda>e. (drop (length S) (fst e), snd e)) (S @ r, n)
             \<in> (\<lambda>e. (drop (length S) (fst e), snd e)) ` set (filter (\<lambda>e. prefix S (fst e) \<and> fst e \<noteq> S) (AList.clearjunk fs))"
    by (rule imageI)
  then show "(r, n) \<in> set (entries_below S fs)" by (simp add: entries_below_def)
qed

lemma entries_below_distinct: "distinct (map fst (entries_below S fs))"
proof -
  let ?xs = "filter (\<lambda>e. prefix S (fst e) \<and> fst e \<noteq> S) (AList.clearjunk fs)"
  have d: "distinct (map fst ?xs)" by (simp add: distinct_map_filter distinct_clearjunk)
  have inj: "inj_on (drop (length S)) (set (map fst ?xs))"
    by (rule inj_onI) (auto simp: prefix_def)
  have "map fst (entries_below S fs) = map (drop (length S)) (map fst ?xs)"
    by (simp add: entries_below_def comp_def)
  moreover from d inj have "distinct (map (drop (length S)) (map fst ?xs))"
    by (rule distinct_map[THEN iffD2, OF conjI])
  ultimately show ?thesis by simp
qed

lemma fs_copy_dir_success:
  assumes "fs_copy S T fs = Inr fs'" "node_at fs S = Some Dir"
  shows "\<not> prefix S T" "\<not> prefix T S"
    "\<exists>fs1. fs_mkdirp T fs = Inr fs1 \<and> copy_entries T (entries_below S fs) fs1 = Inr fs'"
proof -
  have eq: "fs_copy S T fs =
     (if prefix S T then Inl CopyError
      else if prefix T S then Inl Unmodelled
      else (case node_at fs T of
              Some (File c) \<Rightarrow> Inl CopyError
            | _ \<Rightarrow> (case fs_mkdirp T fs of
                      Inl e \<Rightarrow> Inl e
                    | Inr fs1 \<Rightarrow> copy_entries T (entries_below S fs) fs1)))"
    by (simp add: fs_copy_def assms(2))
  show 1: "\<not> prefix S T" using assms(1) eq by (auto split: if_splits)
  show 2: "\<not> prefix T S" using assms(1) eq 1 by (auto split: if_splits)
  have 3: "(case fs_mkdirp T fs of Inl e \<Rightarrow> Inl e
            | Inr fs1 \<Rightarrow> copy_entries T (entries_below S fs) fs1) = Inr fs'"
    using assms(1) eq 1 2 by (cases "node_at fs T") (auto split: node.splits)
  then show "\<exists>fs1. fs_mkdirp T fs = Inr fs1 \<and> copy_entries T (entries_below S fs) fs1 = Inr fs'"
    by (cases "fs_mkdirp T fs") auto
qed

text \<open>The copy of a directory: the destination is a directory, every file below the
  source is at the same relative path below the destination, and every entry that has
  no counterpart below the source is as it was.\<close>

lemma fs_copy_dir:
  assumes "fs_copy S T fs = Inr fs'" "node_at fs S = Some Dir"
  shows "node_at fs' T = Some Dir"
    and "\<And>r c. node_at fs (S @ r) = Some (File c) \<Longrightarrow> node_at fs' (T @ r) = Some (File c)"
    and "\<And>q n. node_at fs q = Some n \<Longrightarrow> (\<And>r. q = T @ r \<Longrightarrow> node_at fs (S @ r) = None)
           \<Longrightarrow> node_at fs' q = Some n"
proof -
  from fs_copy_dir_success[OF assms] obtain fs1 where
    m: "fs_mkdirp T fs = Inr fs1" and c: "copy_entries T (entries_below S fs) fs1 = Inr fs'"
    by blast
  have mem: "\<And>r. r \<in> fst ` set (entries_below S fs) \<Longrightarrow> r \<noteq> [] \<and> node_at fs (S @ r) \<noteq> None"
  proof -
    fix r assume "r \<in> fst ` set (entries_below S fs)"
    then obtain n' where "(r, n') \<in> set (entries_below S fs)" by auto
    then have "r \<noteq> []" "map_of fs (S @ r) = Some n'" by (simp_all add: entries_below_mem)
    then show "r \<noteq> [] \<and> node_at fs (S @ r) \<noteq> None" by (simp add: node_at_def)
  qed
  have "node_at fs' T = node_at fs1 T"
  proof (rule copy_entries_other[OF c])
    fix r assume "r \<in> fst ` set (entries_below S fs)"
    then have "r \<noteq> []" using mem by blast
    then show "T \<noteq> T @ r" by simp
  qed
  then show "node_at fs' T = Some Dir" using fs_mkdirp_made[OF m] by simp
  show "node_at fs' (T @ r) = Some (File c)" if f: "node_at fs (S @ r) = Some (File c)" for r c
  proof -
    have r: "r \<noteq> []" using f assms(2) by (cases r) auto
    then have "map_of fs (S @ r) = Some (File c)" using f by (simp add: node_at_def)
    then have "(r, File c) \<in> set (entries_below S fs)" using r by (simp add: entries_below_mem)
    then show ?thesis using copy_entries_copied[OF c entries_below_distinct _ r] by blast
  qed
  show "node_at fs' q = Some n"
    if q: "node_at fs q = Some n" and none: "\<And>r. q = T @ r \<Longrightarrow> node_at fs (S @ r) = None" for q n
  proof -
    have 1: "node_at fs1 q = Some n" using fs_mkdirp_keeps[OF m q] .
    have "node_at fs' q = node_at fs1 q"
    proof (rule copy_entries_other[OF c])
      fix r assume "r \<in> fst ` set (entries_below S fs)"
      then have ex: "node_at fs (S @ r) \<noteq> None" using mem by blast
      show "q \<noteq> T @ r"
      proof
        assume "q = T @ r"
        then have "node_at fs (S @ r) = None" by (rule none)
        then show False using ex by simp
      qed
    qed
    then show ?thesis using 1 by simp
  qed
qed

section \<open>\<open>copyCliPackageTemplate\<close>\<close>

lemma existsSync_trace:
  "existsSync s (w\<lparr>trace := t\<rparr>) = (fst (existsSync s w), w\<lparr>trace := t\<rparr>)"
proof (cases "resolve (cwd w) s")
  case (Inl e)
  then show ?thesis by (cases e) (simp_all add: existsSync_def)
next
  case (Inr p)
  then show ?thesis
    by (cases "node_at (files w) p") (simp_all add: existsSync_def split: node.splits)
qed

lemma existsSync_True:
  assumes "fst (existsSync s w) = Inr True"
  shows "\<exists>p n. resolve (cwd w) s = Inr p \<and> node_at (files w) p = Some n"
proof (cases "resolve (cwd w) s")
  case (Inl e)
  then show ?thesis using assms by (cases e) (simp_all add: existsSync_def)
next
  case (Inr p)
  then show ?thesis using assms
    by (cases "node_at (files w) p") (simp_all add: existsSync_def)
qed

lemma copySync_success:
  assumes "copySync s d w = (Inr u, w')"
  shows "\<exists>S T fs'. resolve (cwd w) s = Inr S \<and> resolve (cwd w) d = Inr T
           \<and> fs_copy S T (files w) = Inr fs'
           \<and> w' = w\<lparr>trace := trace w @ [FsCopy S T], files := fs'\<rparr>"
  using assms
  by (auto simp: copySync_def io_bind_emit with_path_def lift_fs_def split: sum.splits)

lemma steps3_success:
  assumes "steps [a, b, c] w = (Inr u, w')"
  shows "\<exists>w1 w2. a w = (Inr (), w1) \<and> b w1 = (Inr (), w2) \<and> c w2 = (Inr (), w')"
proof -
  from steps_Cons_success[OF assms] obtain w1 where
    1: "a w = (Inr (), w1)" "steps [b, c] w1 = (Inr (), w')" by blast
  from steps2_success[OF 1(2)] show ?thesis using 1(1) by blast
qed

lemma io_bind_unit: "io_bind m io_return = m"
  by (rule ext) (simp add: io_bind_def io_return_def split: prod.splits sum.splits)

lemma steps3_eq: "steps [a, b, c] = io_bind a (\<lambda>_. io_bind b (\<lambda>_. c))"
  by (simp add: io_bind_unit)

text \<open>The run of \<open>copyCliPackageTemplate\<close>, after its two lines on the console.\<close>

lemma copyCli_run:
  "\<exists>m1 m2.
     copyCliPackageTemplate tt pn mr rp cr w =
       (case fst (existsSync (path_join [cr, ''templates'', tt]) w) of
          Inl e \<Rightarrow> (Inl e, w\<lparr>trace := trace w @ [ConsoleLog m1, ConsoleLog m2]\<rparr>)
        | Inr found \<Rightarrow>
            if \<not> found then
              (Inr (),
               w\<lparr>trace := trace w @ [ConsoleLog m1, ConsoleLog m2,
                    ConsoleError ([CHR 0xE2, CHR 0x9D, CHR 0x8C] @ '' Template directory not found: ''
                                    @ path_join [cr, ''templates'', tt])]\<rparr>)
            else
              steps
                [ensureDirSync (path_join [mr, repo_name rp, pn]),
                 copySync (path_join [cr, ''templates'', tt]) (path_join [mr, repo_name rp, pn]),
                 emit (ConsoleLog ([CHR 0xE2, CHR 0x9C, CHR 0x85] @ '' CLI package '' @ [CHR 0x27]
                         @ pn @ [CHR 0x27] @ '' created from '' @ [CHR 0x27]
                         @ tt @ [CHR 0x27] @ '' template.''))]
                (w\<lparr>trace := trace w @ [ConsoleLog m1, ConsoleLog m2]\<rparr>))"
proof -
  let ?tdir = "path_join [cr, ''templates'', tt]"
  let ?m1 = "[CHR 0xF0, CHR 0x9F, CHR 0x93, CHR 0x82] @ '' Template Source (CLI Program): '' @ ?tdir"
  let ?m2 = "[CHR 0xF0, CHR 0x9F, CHR 0x93, CHR 0x82] @ '' Target Destination (Monorepo): ''
               @ path_join [mr, repo_name rp, pn]"
  let ?w2 = "w\<lparr>trace := trace w @ [ConsoleLog ?m1, ConsoleLog ?m2]\<rparr>"
  have e: "existsSync ?tdir ?w2 = (fst (existsSync ?tdir w), ?w2)"
    by (rule existsSync_trace)
  have run: "copyCliPackageTemplate tt pn mr rp cr w =
      io_bind (existsSync ?tdir)
        (\<lambda>found.
           if \<not> found then
             emit (ConsoleError ([CHR 0xE2, CHR 0x9D, CHR 0x8C] @ '' Template directory not found: '' @ ?tdir))
           else
             steps
               [ensureDirSync (path_join [mr, repo_name rp, pn]),
                copySync ?tdir (path_join [mr, repo_name rp, pn]),
                emit (ConsoleLog ([CHR 0xE2, CHR 0x9C, CHR 0x85] @ '' CLI package '' @ [CHR 0x27]
                        @ pn @ [CHR 0x27] @ '' created from '' @ [CHR 0x27]
                        @ tt @ [CHR 0x27] @ '' template.''))]) ?w2"
    unfolding copyCliPackageTemplate_def Let_def
    by (subst steps3_eq) (simp only: io_bind_emit, simp del: steps.simps)
  show ?thesis
    apply (rule exI[of _ ?m1], rule exI[of _ ?m2])
    apply (cases "fst (existsSync ?tdir w)")
     apply (simp_all only: run io_bind_def e sum.case prod.case)
    apply (simp add: emit_def del: steps.simps)
    done
qed

text \<open>
  C3. When nothing exists at the template directory, \<open>copyCliPackageTemplate\<close> writes
  its two lines and an error to the console and returns. It does not touch the file
  system: no directory is created and every file is as it was.
\<close>

theorem copyCliPackageTemplate_missing_source:
  assumes "fst (existsSync (path_join [cliRoot, ''templates'', templateType]) w) = Inr False"
  shows "\<exists>m1 m2.
     copyCliPackageTemplate templateType packageName monorepoRoot rp cliRoot w =
       (Inr (),
        w\<lparr>trace := trace w @ [ConsoleLog m1, ConsoleLog m2,
             ConsoleError ([CHR 0xE2, CHR 0x9D, CHR 0x8C] @ '' Template directory not found: ''
                             @ path_join [cliRoot, ''templates'', templateType])]\<rparr>) \<and>
     files (snd (copyCliPackageTemplate templateType packageName monorepoRoot rp cliRoot w)) = files w \<and>
     cwd (snd (copyCliPackageTemplate templateType packageName monorepoRoot rp cliRoot w)) = cwd w"
proof -
  from copyCli_run[of templateType packageName monorepoRoot rp cliRoot w] obtain m1 m2 where
    "copyCliPackageTemplate templateType packageName monorepoRoot rp cliRoot w =
       (Inr (),
        w\<lparr>trace := trace w @ [ConsoleLog m1, ConsoleLog m2,
             ConsoleError ([CHR 0xE2, CHR 0x9D, CHR 0x8C] @ '' Template directory not found: ''
                             @ path_join [cliRoot, ''templates'', templateType])]\<rparr>)"
    using assms by (auto simp del: steps.simps)
  then show ?thesis by (intro exI[of _ m1] exI[of _ m2]) simp
qed

lemma tpl_missing: "fst (existsSync (path_join [''/cli'', ''templates'', ''nope'']) world_tpl) = Inr False"
  by code_simp

theorem copyCliPackageTemplate_missing_source_witness:
  "files (snd (copyCliPackageTemplate ''nope'' ''db'' ''/mono'' Packages ''/cli'' world_tpl))
     = files world_tpl \<and>
   fst (copyCliPackageTemplate ''nope'' ''db'' ''/mono'' Packages ''/cli'' world_tpl) = Inr ()"
  using copyCliPackageTemplate_missing_source[OF tpl_missing, of "''db''" "''/mono''" Packages]
  by auto

text \<open>
  C4. When the template directory exists and \<open>copyCliPackageTemplate\<close> returns, the target
  is a directory, every file below the template directory is at the same relative path
  below the target with the template's content, whatever was there, and every file and
  directory that has no counterpart below the template directory is as it was.
\<close>

theorem copyCliPackageTemplate_copies:
  assumes run: "copyCliPackageTemplate templateType packageName monorepoRoot rp cliRoot w = (Inr (), w')"
    and found: "fst (existsSync (path_join [cliRoot, ''templates'', templateType]) w) = Inr True"
  shows "\<exists>S T.
     resolve (cwd w) (path_join [cliRoot, ''templates'', templateType]) = Inr S \<and>
     resolve (cwd w) (path_join [monorepoRoot, repo_name rp, packageName]) = Inr T \<and>
     node_at (files w) S = Some Dir \<and>
     node_at (files w') T = Some Dir \<and>
     (\<forall>r c. node_at (files w) (S @ r) = Some (File c) \<longrightarrow> node_at (files w') (T @ r) = Some (File c)) \<and>
     (\<forall>q n. node_at (files w) q = Some n \<longrightarrow> (\<forall>r. q = T @ r \<longrightarrow> node_at (files w) (S @ r) = None)
        \<longrightarrow> node_at (files w') q = Some n)"
proof -
  let ?tdir = "path_join [cliRoot, ''templates'', templateType]"
  let ?target = "path_join [monorepoRoot, repo_name rp, packageName]"
  from copyCli_run[of templateType packageName monorepoRoot rp cliRoot w] obtain m1 m2 where
    st: "steps [ensureDirSync ?target, copySync ?tdir ?target,
                emit (ConsoleLog ([CHR 0xE2, CHR 0x9C, CHR 0x85] @ '' CLI package '' @ [CHR 0x27]
                        @ packageName @ [CHR 0x27] @ '' created from '' @ [CHR 0x27]
                        @ templateType @ [CHR 0x27] @ '' template.''))]
           (w\<lparr>trace := trace w @ [ConsoleLog m1, ConsoleLog m2]\<rparr>) = (Inr (), w')"
    using run found by (auto simp del: steps.simps)
  let ?w2 = "w\<lparr>trace := trace w @ [ConsoleLog m1, ConsoleLog m2]\<rparr>"
  from steps3_success[OF st] obtain w3 w4 where
    en: "ensureDirSync ?target ?w2 = (Inr (), w3)" and
    cp: "copySync ?tdir ?target w3 = (Inr (), w4)" and
    em: "emit (ConsoleLog ([CHR 0xE2, CHR 0x9C, CHR 0x85] @ '' CLI package '' @ [CHR 0x27]
                        @ packageName @ [CHR 0x27] @ '' created from '' @ [CHR 0x27]
                        @ templateType @ [CHR 0x27] @ '' template.'')) w4 = (Inr (), w')"
    by blast
  from mkdirSync_success[OF en[unfolded ensureDirSync_def]] obtain T fsA where
    T: "resolve (cwd w) ?target = Inr T" and mk: "fs_mkdirp T (files w) = Inr fsA"
    and w3: "files w3 = fsA" "cwd w3 = cwd w"
    by auto
  from copySync_success[OF cp] obtain S T' fsB where
    S: "resolve (cwd w) ?tdir = Inr S" and T': "resolve (cwd w) ?target = Inr T'"
    and fc: "fs_copy S T' fsA = Inr fsB" and w4: "files w4 = fsB"
    using w3 by auto
  have TT: "T' = T" using T T' by simp
  have w': "files w' = fsB" using em w4 by (auto simp: emit_def)
  from existsSync_True[OF found] S obtain n where n: "node_at (files w) S = Some n" by auto
  have nA: "node_at fsA S = Some n" using fs_mkdirp_keeps[OF mk n] .
  have dirS: "n = Dir"
  proof (cases n)
    case (File c)
    have "node_at fsA T = Some Dir" using fs_mkdirp_made[OF mk] .
    then have "fs_copy S T fsA = Inl CopyError" using nA File by (simp add: fs_copy_def)
    then show ?thesis using fc TT by simp
  next
    case Dir
    then show ?thesis .
  qed
  have SA: "node_at fsA S = Some Dir" using nA dirS by simp
  note cs = fs_copy_dir_success[OF fc[unfolded TT] SA]
  note cd = fs_copy_dir[OF fc[unfolded TT] SA]
  have same: "\<And>r. node_at fsA (S @ r) = node_at (files w) (S @ r)"
  proof -
    fix r
    have "\<not> prefix (S @ r) T" using cs(1) by (meson prefix_order.dual_order.trans prefixI)
    then show "node_at fsA (S @ r) = node_at (files w) (S @ r)" by (rule fs_mkdirp_other[OF mk])
  qed
  have 1: "node_at (files w') T = Some Dir" using cd(1) w' by simp
  have 2: "\<forall>r c. node_at (files w) (S @ r) = Some (File c) \<longrightarrow> node_at (files w') (T @ r) = Some (File c)"
    using cd(2) same w' by simp
  have 3: "\<forall>q n. node_at (files w) q = Some n \<longrightarrow> (\<forall>r. q = T @ r \<longrightarrow> node_at (files w) (S @ r) = None)
             \<longrightarrow> node_at (files w') q = Some n"
  proof (intro allI impI)
    fix q n
    assume q: "node_at (files w) q = Some n"
      and none: "\<forall>r. q = T @ r \<longrightarrow> node_at (files w) (S @ r) = None"
    have qA: "node_at fsA q = Some n" using fs_mkdirp_keeps[OF mk q] .
    have "node_at fsB q = Some n"
    proof (rule cd(3)[OF qA])
      fix r assume "q = T @ r"
      then show "node_at fsA (S @ r) = None" using none same by simp
    qed
    then show "node_at (files w') q = Some n" using w' by simp
  qed
  show ?thesis using S T n dirS 1 2 3 by blast
qed

lemma tpl_found: "fst (existsSync (path_join [''/cli'', ''templates'', ''db'']) world_tpl) = Inr True"
  by code_simp

lemma tpl_runs: "fst (copyCliPackageTemplate ''db'' ''db'' ''/mono'' Packages ''/cli'' world_tpl) = Inr ()"
  by code_simp

lemma tpl_paths:
  "resolve (cwd world_tpl) (path_join [''/cli'', ''templates'', ''db'']) = Inr [''cli'', ''templates'', ''db'']"
  "resolve (cwd world_tpl) (path_join [''/mono'', repo_name Packages, ''db'']) = Inr [''mono'', ''packages'', ''db'']"
  by code_simp+

lemma tpl_nodes:
  "node_at (files world_tpl) ([''cli'', ''templates'', ''db''] @ [''src'', ''i.ts'']) = Some (File ''I'')"
  "node_at (files world_tpl) ([''cli'', ''templates'', ''db''] @ [''a.ts'']) = Some (File ''A'')"
  "node_at (files world_tpl) [''mono'', ''packages'', ''db'', ''keep''] = Some (File ''K'')"
  "node_at (files world_tpl) ([''cli'', ''templates'', ''db''] @ [''keep'']) = None"
  by code_simp+

theorem copyCliPackageTemplate_copies_witness:
  "node_at (files (snd (copyCliPackageTemplate ''db'' ''db'' ''/mono'' Packages ''/cli'' world_tpl)))
     [''mono'', ''packages'', ''db'', ''src'', ''i.ts''] = Some (File ''I'') \<and>
   node_at (files (snd (copyCliPackageTemplate ''db'' ''db'' ''/mono'' Packages ''/cli'' world_tpl)))
     [''mono'', ''packages'', ''db'', ''a.ts''] = Some (File ''A'') \<and>
   node_at (files (snd (copyCliPackageTemplate ''db'' ''db'' ''/mono'' Packages ''/cli'' world_tpl)))
     [''mono'', ''packages'', ''db'', ''keep''] = Some (File ''K'')"
proof -
  let ?w' = "snd (copyCliPackageTemplate ''db'' ''db'' ''/mono'' Packages ''/cli'' world_tpl)"
  have run: "copyCliPackageTemplate ''db'' ''db'' ''/mono'' Packages ''/cli'' world_tpl = (Inr (), ?w')"
    using tpl_runs by (metis prod.collapse)
  from copyCliPackageTemplate_copies[OF run tpl_found] obtain S T where
    S: "resolve (cwd world_tpl) (path_join [''/cli'', ''templates'', ''db'']) = Inr S" and
    T: "resolve (cwd world_tpl) (path_join [''/mono'', repo_name Packages, ''db'']) = Inr T" and
    copied: "\<forall>r c. node_at (files world_tpl) (S @ r) = Some (File c)
               \<longrightarrow> node_at (files ?w') (T @ r) = Some (File c)" and
    kept: "\<forall>q n. node_at (files world_tpl) q = Some n
               \<longrightarrow> (\<forall>r. q = T @ r \<longrightarrow> node_at (files world_tpl) (S @ r) = None)
               \<longrightarrow> node_at (files ?w') q = Some n"
    by blast
  have S': "S = [''cli'', ''templates'', ''db'']" and T': "T = [''mono'', ''packages'', ''db'']"
    using S T tpl_paths by simp_all
  have 1: "node_at (files ?w') (T @ [''src'', ''i.ts'']) = Some (File ''I'')"
    using copied tpl_nodes(1) S' by blast
  have 2: "node_at (files ?w') (T @ [''a.ts'']) = Some (File ''A'')"
    using copied tpl_nodes(2) S' by blast
  have "\<forall>r. [''mono'', ''packages'', ''db'', ''keep''] = T @ r \<longrightarrow> node_at (files world_tpl) (S @ r) = None"
    using tpl_nodes(4) S' T' by auto
  then have 3: "node_at (files ?w') [''mono'', ''packages'', ''db'', ''keep''] = Some (File ''K'')"
    using kept tpl_nodes(3) by blast
  show ?thesis using 1 2 3 T' by simp
qed

section \<open>Events in a working directory\<close>

lemma emits_inI:
  "(\<And>w::world. cwd w = C \<Longrightarrow> cwd (snd (m w)) = C \<and> (\<exists>t. trace (snd (m w)) = trace w @ t \<and> (\<forall>e \<in> set t. P e)))
     \<Longrightarrow> emits_in C P m"
  by (simp add: emits_in_def)

lemma emits_inD:
  "emits_in C P m \<Longrightarrow> cwd (w::world) = C
     \<Longrightarrow> cwd (snd (m w)) = C \<and> (\<exists>t. trace (snd (m w)) = trace w @ t \<and> (\<forall>e \<in> set t. P e))"
  by (simp add: emits_in_def)

lemma emits_in_return: "emits_in C P (io_return x)"
  by (simp add: emits_in_def io_return_def)

lemma emits_in_throw: "emits_in C P (io_throw e)"
  by (simp add: emits_in_def io_throw_def)

lemma emits_in_emit: "P e \<Longrightarrow> emits_in C P (emit e)"
  by (simp add: emits_in_def emit_def)

lemma emits_in_bind:
  assumes "emits_in C P m" "\<And>x. emits_in C P (f x)"
  shows "emits_in C P (io_bind m f)"
proof (rule emits_inI)
  fix w :: world assume c: "cwd w = C"
  obtain r w1 where mw: "m w = (r, w1)" by (cases "m w")
  obtain t1 where t1: "cwd w1 = C" "trace w1 = trace w @ t1" "\<forall>e \<in> set t1. P e"
    using emits_inD[OF assms(1) c] mw by auto
  show "cwd (snd (io_bind m f w)) = C \<and> (\<exists>t. trace (snd (io_bind m f w)) = trace w @ t \<and> (\<forall>e \<in> set t. P e))"
  proof (cases r)
    case (Inl e)
    then show ?thesis using mw t1 by (auto simp: io_bind_def)
  next
    case (Inr x)
    obtain t2 where t2: "cwd (snd (f x w1)) = C" "trace (snd (f x w1)) = trace w1 @ t2" "\<forall>e \<in> set t2. P e"
      using emits_inD[OF assms(2) t1(1), of x] by auto
    have "trace (snd (io_bind m f w)) = trace w @ (t1 @ t2)"
      using Inr mw t1 t2 by (simp add: io_bind_def)
    moreover have "cwd (snd (io_bind m f w)) = C" using Inr mw t2 by (simp add: io_bind_def)
    ultimately show ?thesis using t1 t2 by (intro conjI exI[of _ "t1 @ t2"]) auto
  qed
qed

lemma emits_in_steps_Nil: "emits_in C P (steps [])"
  by (simp add: emits_in_return)

lemma emits_in_steps_Cons:
  "emits_in C P m \<Longrightarrow> emits_in C P (steps ms) \<Longrightarrow> emits_in C P (steps (m # ms))"
  by (simp add: emits_in_bind)

lemma emits_in_try_catch:
  assumes "emits_in C P m" "emits_in C P h"
  shows "emits_in C P (try_catch m h)"
proof (rule emits_inI)
  fix w :: world assume c: "cwd w = C"
  obtain r w1 where mw: "m w = (r, w1)" by (cases "m w")
  obtain t1 where t1: "cwd w1 = C" "trace w1 = trace w @ t1" "\<forall>e \<in> set t1. P e"
    using emits_inD[OF assms(1) c] mw by auto
  show "cwd (snd (try_catch m h w)) = C \<and> (\<exists>t. trace (snd (try_catch m h w)) = trace w @ t \<and> (\<forall>e \<in> set t. P e))"
  proof (cases r)
    case (Inr x)
    then show ?thesis using mw t1 by (auto simp: try_catch_def)
  next
    case (Inl e)
    obtain t2 where t2: "cwd (snd (h w1)) = C" "trace (snd (h w1)) = trace w1 @ t2" "\<forall>e \<in> set t2. P e"
      using emits_inD[OF assms(2) t1(1)] by auto
    have "trace (snd (try_catch m h w)) = trace w @ (t1 @ t2)"
      using Inl mw t1 t2 by (simp add: try_catch_def)
    moreover have "cwd (snd (try_catch m h w)) = C" using Inl mw t2 by (simp add: try_catch_def)
    ultimately show ?thesis using t1 t2 by (intro conjI exI[of _ "t1 @ t2"]) auto
  qed
qed

lemma emits_in_with_path:
  "(\<And>p. resolve C s = Inr p \<Longrightarrow> emits_in C P (f p)) \<Longrightarrow> emits_in C P (with_path s f)"
  unfolding emits_in_def with_path_def by (auto split: sum.splits)

lemma emits_in_lift_fs: "emits_in C P (lift_fs f)"
  by (simp add: emits_in_def lift_fs_def split: sum.splits)

lemma emits_in_mkdirSync:
  "(\<And>p. resolve C s = Inr p \<Longrightarrow> P (FsMkdir p)) \<Longrightarrow> emits_in C P (mkdirSync s r)"
  unfolding mkdirSync_def
  by (intro emits_in_with_path emits_in_bind emits_in_emit emits_in_lift_fs)

lemma emits_in_writeFileSync:
  "(\<And>p. resolve C s = Inr p \<Longrightarrow> P (FsWrite p)) \<Longrightarrow> emits_in C P (writeFileSync s c)"
  unfolding writeFileSync_def
  by (intro emits_in_with_path emits_in_bind emits_in_emit)
     (auto intro: emits_in_throw emits_in_lift_fs)

lemma emits_in_run_child: "emits_in C P (run_child E c d)"
  by (simp add: emits_in_def run_child_def split: prod.splits option.splits)

lemma emits_in_execSync:
  assumes "\<And>p. (case d of None \<Rightarrow> Inr C | Some s \<Rightarrow> resolve C s) = Inr p \<Longrightarrow> P (Exec c p)"
  shows "emits_in C P (execSync E c d)"
proof (rule emits_inI)
  fix w :: world assume cw: "cwd w = C"
  have ed: "exec_dir d w = (case d of None \<Rightarrow> Inr C | Some s \<Rightarrow> resolve C s)"
    using cw by (simp add: exec_dir_def split: option.split)
  show "cwd (snd (execSync E c d w)) = C \<and> (\<exists>t. trace (snd (execSync E c d w)) = trace w @ t \<and> (\<forall>e \<in> set t. P e))"
  proof (cases "exec_dir d w")
    case (Inl e)
    then show ?thesis using cw by (simp add: execSync_def)
  next
    case (Inr p)
    have "emits_in C P (io_bind (emit (Exec c p)) (\<lambda>_. run_child E c p))"
      by (intro emits_in_bind emits_in_emit emits_in_run_child assms) (use Inr ed in simp)
    then show ?thesis using emits_inD[OF _ cw] Inr by (simp add: execSync_def)
  qed
qed

lemma emits_in_execInherit:
  "(\<And>p. (case d of None \<Rightarrow> Inr C | Some s \<Rightarrow> resolve C s) = Inr p \<Longrightarrow> P (Exec c p))
     \<Longrightarrow> emits_in C P (execInherit E c d)"
  unfolding execInherit_def
  by (intro emits_in_bind emits_in_execSync emits_in_return)

lemmas emits_in_intros =
  emits_in_return emits_in_throw emits_in_emit emits_in_bind emits_in_steps_Nil emits_in_steps_Cons
  emits_in_try_catch emits_in_mkdirSync emits_in_writeFileSync emits_in_execSync emits_in_execInherit

section \<open>The paths of the package units\<close>

lemma path_join_units:

  "path_join [''packages'', ''db''] = ''packages/db''"
  "path_join [''packages/db'', ''src''] = ''packages/db/src''"
  "path_join [''packages/db'', ''package.json''] = ''packages/db/package.json''"
  "path_join [''packages/db'', ''tsconfig.json''] = ''packages/db/tsconfig.json''"
  "path_join [''packages/db'', ''tsup.config.ts''] = ''packages/db/tsup.config.ts''"
  "path_join [''packages/db'', ''prisma/schema.prisma''] = ''packages/db/prisma/schema.prisma''"
  "path_join [''packages/db'', ''src/util.ts''] = ''packages/db/src/util.ts''"
  "path_join [''packages/db'', ''src/index.ts''] = ''packages/db/src/index.ts''"
  "path_join [''packages/db'', ''src/db.ts''] = ''packages/db/src/db.ts''"
  "path_join [''packages'', ''queue''] = ''packages/queue''"
  "path_join [''packages/queue'', ''src''] = ''packages/queue/src''"
  "path_join [''packages/queue'', ''package.json''] = ''packages/queue/package.json''"
  "path_join [''packages/queue'', ''tsconfig.json''] = ''packages/queue/tsconfig.json''"
  "path_join [''packages/queue'', ''tsup.config.ts''] = ''packages/queue/tsup.config.ts''"
  "path_join [''packages/queue'', ''src/index.ts''] = ''packages/queue/src/index.ts''"

  by code_simp+

lemma path_dirname_units:

  "path_dirname ''packages/db/prisma/schema.prisma'' = ''packages/db/prisma''"
  "path_dirname ''packages/db/src/util.ts'' = ''packages/db/src''"
  "path_dirname ''packages/db/src/index.ts'' = ''packages/db/src''"
  "path_dirname ''packages/db/src/db.ts'' = ''packages/db/src''"
  "path_dirname ''packages/queue/src/index.ts'' = ''packages/queue/src''"

  by code_simp+

lemma resolve_units:

  "resolve C ''packages/db'' = Inr (C @ [''packages'', ''db''])"
  "resolve C ''packages/db/src'' = Inr (C @ [''packages'', ''db'', ''src''])"
  "resolve C ''packages/db/package.json'' = Inr (C @ [''packages'', ''db'', ''package.json''])"
  "resolve C ''packages/db/tsconfig.json'' = Inr (C @ [''packages'', ''db'', ''tsconfig.json''])"
  "resolve C ''packages/db/tsup.config.ts'' = Inr (C @ [''packages'', ''db'', ''tsup.config.ts''])"
  "resolve C ''packages/db/prisma/schema.prisma'' = Inr (C @ [''packages'', ''db'', ''prisma'', ''schema.prisma''])"
  "resolve C ''packages/db/src/util.ts'' = Inr (C @ [''packages'', ''db'', ''src'', ''util.ts''])"
  "resolve C ''packages/db/src/index.ts'' = Inr (C @ [''packages'', ''db'', ''src'', ''index.ts''])"
  "resolve C ''packages/db/src/db.ts'' = Inr (C @ [''packages'', ''db'', ''src'', ''db.ts''])"
  "resolve C ''packages/db/prisma'' = Inr (C @ [''packages'', ''db'', ''prisma''])"
  "resolve C ''packages/queue'' = Inr (C @ [''packages'', ''queue''])"
  "resolve C ''packages/queue/src'' = Inr (C @ [''packages'', ''queue'', ''src''])"
  "resolve C ''packages/queue/package.json'' = Inr (C @ [''packages'', ''queue'', ''package.json''])"
  "resolve C ''packages/queue/tsconfig.json'' = Inr (C @ [''packages'', ''queue'', ''tsconfig.json''])"
  "resolve C ''packages/queue/tsup.config.ts'' = Inr (C @ [''packages'', ''queue'', ''tsup.config.ts''])"
  "resolve C ''packages/queue/src/index.ts'' = Inr (C @ [''packages'', ''queue'', ''src'', ''index.ts''])"

  by (simp_all add: resolve_def)

section \<open>The events of a run that returns\<close>

lemma emits_exactlyI:
  "(\<And>(w::world) x w'. cwd w = C \<Longrightarrow> m w = (Inr x, w') \<Longrightarrow> cwd w' = C \<and> trace w' = trace w @ L)
     \<Longrightarrow> emits_exactly C m L"
  unfolding emits_exactly_def by blast

lemma emits_exactlyD:
  "emits_exactly C m L \<Longrightarrow> cwd (w::world) = C \<Longrightarrow> m w = (Inr x, w')
     \<Longrightarrow> cwd w' = C \<and> trace w' = trace w @ L"
  unfolding emits_exactly_def by blast

lemma emits_exactly_return: "emits_exactly C (io_return x) []"
  by (simp add: emits_exactly_def io_return_def)

lemma emits_exactly_emit: "emits_exactly C (emit e) [e]"
  by (auto simp: emits_exactly_def emit_def)

lemma emits_exactly_bind:
  assumes "emits_exactly C m L1" "\<And>x. emits_exactly C (f x) L2"
  shows "emits_exactly C (io_bind m f) (L1 @ L2)"
proof (rule emits_exactlyI)
  fix w :: world and y w'
  assume c: "cwd w = C" and r: "io_bind m f w = (Inr y, w')"
  obtain x w1 where 1: "m w = (Inr x, w1)" and 2: "f x w1 = (Inr y, w')"
    using io_bind_success[OF r] by blast
  have a: "cwd w1 = C \<and> trace w1 = trace w @ L1" by (rule emits_exactlyD[OF assms(1) c 1])
  then have "cwd w' = C \<and> trace w' = trace w1 @ L2" using emits_exactlyD[OF assms(2) _ 2] by blast
  with a show "cwd w' = C \<and> trace w' = trace w @ L1 @ L2" by simp
qed

lemma emits_exactly_steps_Nil: "emits_exactly C (steps []) []"
  by (simp add: emits_exactly_return)

lemma emits_exactly_steps_Cons:
  "emits_exactly C m L1 \<Longrightarrow> emits_exactly C (steps ms) L2 \<Longrightarrow> emits_exactly C (steps (m # ms)) (L1 @ L2)"
  by (simp add: emits_exactly_bind)

lemma emits_exactly_mkdirSync:
  "resolve C s = Inr p \<Longrightarrow> emits_exactly C (mkdirSync s r) [FsMkdir p]"
  by (auto simp: emits_exactly_def mkdirSync_def with_path_def io_bind_emit lift_fs_def
           split: sum.splits)

lemma emits_exactly_writeFileSync:
  "resolve C s = Inr p \<Longrightarrow> emits_exactly C (writeFileSync s c) [FsWrite p]"
  by (auto simp: emits_exactly_def writeFileSync_def with_path_def io_bind_emit lift_fs_def
             io_throw_def
           split: sum.splits if_splits)

lemma emits_exactly_execInherit:
  "resolve C s = Inr p \<Longrightarrow> emits_exactly C (execInherit E c (Some s)) [Exec c p]"
proof (rule emits_exactlyI)
  fix w :: world and x w'
  assume p: "resolve C s = Inr p" and c: "cwd w = C"
    and r: "execInherit E c (Some s) w = (Inr x, w')"
  have "\<exists>out. run_child E c p (w\<lparr>trace := trace w @ [Exec c p]\<rparr>) = (Inr out, w')"
    using r p c
    by (auto simp: execInherit_def execSync_def exec_dir_def emit_def io_bind_def io_return_def
             split: sum.splits prod.splits)
  then obtain out where "run_child E c p (w\<lparr>trace := trace w @ [Exec c p]\<rparr>) = (Inr out, w')"
    by auto
  then show "cwd w' = C \<and> trace w' = trace w @ [Exec c p]"
    using c by (auto simp: run_child_def split: if_splits prod.splits option.splits)
qed

lemma emits_exactly_conv: "emits_exactly C m L' \<Longrightarrow> L' = L \<Longrightarrow> emits_exactly C m L"
  by simp

lemmas emits_exactly_intros =
  emits_exactly_return emits_exactly_emit emits_exactly_bind emits_exactly_steps_Nil
  emits_exactly_steps_Cons emits_exactly_mkdirSync emits_exactly_writeFileSync
  emits_exactly_execInherit

section \<open>The steps of a package unit\<close>

lemma in_unit_simps:
  "in_unit root u (FsMkdir (root @ xs)) = prefix [''packages'', u] xs"
  "in_unit root u (FsWrite (root @ xs)) = prefix [''packages'', u] xs"
  "in_unit root u (Exec c (root @ xs)) = prefix [''packages'', u] xs"
  "in_unit root u (FsMkdir root) = False"
  "in_unit root u (Exec c root) = False"
  "in_unit root u (Chdir p) = False"
  "in_unit root u (ConsoleLog s) = False"
  "in_unit root u (ConsoleWarn s) = False"
  "in_unit root u (ConsoleError s) = False"
  "in_unit root u Prompt = False"
  by (simp_all add: in_unit_def)

lemma init_db_package_exactly:
  "\<exists>L. emits_exactly root (init_db_package E) L
       \<and> filter (in_unit root ''db'') L = db_steps root
       \<and> (\<forall>e \<in> set L. \<not> in_unit root ''queue'' e)"
  unfolding init_db_package_def Let_def createPackage_def write_package_file_def db_files_def
    path_join_units path_dirname_units list.map append.simps fst_conv snd_conv
  apply (intro exI conjI)
    apply (rule emits_exactly_intros resolve_units)+
   apply (simp add: in_unit_simps db_steps_def Let_def)
  apply (simp add: in_unit_simps)
  done

lemma queue_phase_exactly:
  "\<exists>L. emits_exactly root (steps [init_queue_package E, emit (ConsoleLog s)]) L
       \<and> filter (in_unit root ''queue'') L = queue_steps root
       \<and> (\<forall>e \<in> set L. \<not> in_unit root ''db'' e)"
  unfolding init_queue_package_def Let_def createPackage_def write_package_file_def
    path_join_units path_dirname_units list.map append.simps fst_conv snd_conv
  apply (intro exI conjI)
    apply (rule emits_exactly_intros resolve_units)+
   apply (simp add: in_unit_simps queue_steps_def Let_def)
  apply (simp add: in_unit_simps)
  done

section \<open>The events of \<open>initializeMonorepo\<close>\<close>

lemma init_db_package_emits:
  "emits_in root (\<lambda>e. \<not> in_unit root ''queue'' e) (init_db_package E)"
  unfolding init_db_package_def Let_def createPackage_def write_package_file_def db_files_def
    path_join_units path_dirname_units list.map append.simps fst_conv snd_conv
  by (intro emits_in_intros) (auto simp: resolve_units in_unit_simps)

lemma queue_phase_emits:
  "emits_in root (\<lambda>e. \<not> in_unit root ''db'' e)
     (steps [init_queue_package E, emit (ConsoleLog s)])"
  unfolding init_queue_package_def Let_def createPackage_def write_package_file_def
    path_join_units path_dirname_units list.map append.simps fst_conv snd_conv
  by (intro emits_in_intros) (auto simp: resolve_units in_unit_simps)

lemma create_turbo_json_emits:
  "emits_in root (\<lambda>e. \<not> in_unit root ''db'' e \<and> \<not> in_unit root ''queue'' e) (create_turbo_json E)"
proof (cases "prettier_format E (JSON_stringify turboConfig)")
  case None
  then show ?thesis by (simp add: create_turbo_json_def emits_in_throw)
next
  case (Some s)
  then show ?thesis
    unfolding create_turbo_json_def
    by (auto intro!: emits_in_writeFileSync simp: resolve_def in_unit_simps)
qed

lemma workspace_files_emit:
  "emits_in root (\<lambda>e. \<not> in_unit root ''db'' e \<and> \<not> in_unit root ''queue'' e)
     (steps [init_package_json E appName, install_types_node E, create_turbo_json E,
             init_typescript_config E, init_docker_dev appName, init_gitignore_and_install E])"
  apply (intro emits_in_steps_Cons emits_in_steps_Nil create_turbo_json_emits)
  unfolding init_package_json_def install_types_node_def init_typescript_config_def
    init_docker_dev_def init_gitignore_and_install_def getPnpmVersion_def
      apply (intro emits_in_intros; auto simp: resolve_def in_unit_simps)+
  done

lemma io_bind_cases:
  obtains (fail) e w1 where "m w = (Inl e, w1)" "io_bind m f w = (Inl e, w1)"
  | (ok) x w1 where "m w = (Inr x, w1)" "io_bind m f w = f x w1"
proof (cases "m w")
  case (Pair r w1)
  show ?thesis
  proof (cases r)
    case (Inl e)
    then show ?thesis using Pair fail by (simp add: io_bind_def)
  next
    case (Inr x)
    then show ?thesis using Pair ok by (simp add: io_bind_def)
  qed
qed

lemma chdir_run:
  assumes "resolve (cwd w) s = Inr p"
  shows "trace (snd (chdir s w)) = trace w @ [Chdir p]
         \<and> (fst (chdir s w) = Inr () \<longrightarrow> cwd (snd (chdir s w)) = p)"
  using assms by (simp add: chdir_def with_path_def io_bind_emit)

text \<open>The workspace root: the run enters the new directory, and nothing before the two
  package units is a step of either.\<close>

lemma init_root_events:
  assumes "resolve (cwd w) appName = Inr root"
  shows "\<exists>t. trace (snd (init_root appName w)) = trace w @ t
             \<and> (\<forall>e \<in> set t. \<not> in_unit root ''db'' e \<and> \<not> in_unit root ''queue'' e)
             \<and> (fst (init_root appName w) = Inr () \<longrightarrow> cwd (snd (init_root appName w)) = root)"
proof -
  let ?N = "\<lambda>e. \<not> in_unit root ''db'' e \<and> \<not> in_unit root ''queue'' e"
  let ?rest = "steps [writeFileSync ''pnpm-workspace.yaml''
                        (''packages:\<newline>  - \"apps/*\"\<newline>  - \"packages/*\"\<newline>''),
                      mkdirSync ''apps'' False, mkdirSync ''packages'' False]"
  have eq: "init_root appName =
              io_bind (mkdirSync appName False) (\<lambda>_. io_bind (chdir appName) (\<lambda>_. ?rest))"
    by (simp add: init_root_def)
  have mk: "emits_in (cwd w) ?N (mkdirSync appName False)"
    by (rule emits_in_mkdirSync) (use assms in \<open>simp add: in_unit_simps\<close>)
  have rest: "emits_in root ?N ?rest"
    by (intro emits_in_intros) (auto simp: resolve_def in_unit_simps)
  show ?thesis
  proof (cases rule: io_bind_cases[of "mkdirSync appName False" w "\<lambda>_. io_bind (chdir appName) (\<lambda>_. ?rest)"])
    case (fail e w1)
    then show ?thesis using emits_inD[OF mk refl] by (simp add: eq)
  next
    case (ok x w1)
    obtain t1 where t1: "cwd w1 = cwd w" "trace w1 = trace w @ t1" "\<forall>e \<in> set t1. ?N e"
      using emits_inD[OF mk refl] ok(1) by auto
    have r1: "resolve (cwd w1) appName = Inr root" using assms t1(1) by simp
    note cd = chdir_run[OF r1]
    show ?thesis
    proof (cases rule: io_bind_cases[of "chdir appName" w1 "\<lambda>_. ?rest"])
      case (fail e w2)
      have "trace w2 = trace w @ (t1 @ [Chdir root])" using cd fail(1) t1(2) by simp
      moreover have "\<forall>e \<in> set (t1 @ [Chdir root]). ?N e" using t1(3) by (simp add: in_unit_simps)
      ultimately show ?thesis using ok(2) fail(2) unfolding eq by (auto simp del: append_assoc)
    next
      case ok2: (ok y w2)
      have c2: "cwd w2 = root" and tr2: "trace w2 = trace w1 @ [Chdir root]"
        using cd ok2(1) by simp_all
      obtain t3 where t3: "cwd (snd (?rest w2)) = root" "trace (snd (?rest w2)) = trace w2 @ t3"
          "\<forall>e \<in> set t3. ?N e"
        using emits_inD[OF rest c2] by auto
      have run: "init_root appName w = ?rest w2" using ok(2) ok2(2) unfolding eq by simp
      have "trace (snd (?rest w2)) = trace w @ (t1 @ [Chdir root] @ t3)"
        using t3(2) tr2 t1(2) by simp
      moreover have "\<forall>e \<in> set (t1 @ [Chdir root] @ t3). ?N e"
        using t1(3) t3(3) by (auto simp: in_unit_simps)
      ultimately show ?thesis using t3(1) unfolding run by blast
    qed
  qed
qed

lemma workspace_events:
  assumes "resolve (cwd w) appName = Inr root"
  shows "\<exists>t. trace (snd (steps [init_root appName, init_package_json E appName,
                 install_types_node E, create_turbo_json E, init_typescript_config E,
                 init_docker_dev appName, init_gitignore_and_install E] w)) = trace w @ t
             \<and> (\<forall>e \<in> set t. \<not> in_unit root ''db'' e \<and> \<not> in_unit root ''queue'' e)
             \<and> (fst (steps [init_root appName, init_package_json E appName,
                   install_types_node E, create_turbo_json E, init_typescript_config E,
                   init_docker_dev appName, init_gitignore_and_install E] w) = Inr ()
                \<longrightarrow> cwd (snd (steps [init_root appName, init_package_json E appName,
                      install_types_node E, create_turbo_json E, init_typescript_config E,
                      init_docker_dev appName, init_gitignore_and_install E] w)) = root)"
proof -
  let ?N = "\<lambda>e. \<not> in_unit root ''db'' e \<and> \<not> in_unit root ''queue'' e"
  let ?rest = "steps [init_package_json E appName, install_types_node E, create_turbo_json E,
                      init_typescript_config E, init_docker_dev appName,
                      init_gitignore_and_install E]"
  obtain t0 where t0: "trace (snd (init_root appName w)) = trace w @ t0" "\<forall>e \<in> set t0. ?N e"
      "fst (init_root appName w) = Inr () \<longrightarrow> cwd (snd (init_root appName w)) = root"
    using init_root_events[OF assms] by blast
  show ?thesis
  proof (cases rule: io_bind_cases[of "init_root appName" w "\<lambda>_. ?rest"])
    case (fail e w1)
    then show ?thesis using t0 by auto
  next
    case (ok x w1)
    then have c1: "cwd w1 = root" and tr1: "trace w1 = trace w @ t0" using t0 by simp_all
    obtain t1 where t1: "cwd (snd (?rest w1)) = root" "trace (snd (?rest w1)) = trace w1 @ t1"
        "\<forall>e \<in> set t1. ?N e"
      using emits_inD[OF workspace_files_emit c1, of E appName] by auto
    have "trace (snd (?rest w1)) = trace w @ (t0 @ t1)" using t1(2) tr1 by simp
    moreover have "\<forall>e \<in> set (t0 @ t1). ?N e" using t0(2) t1(3) by auto
    ultimately show ?thesis using t1(1) ok(2) by (auto simp del: append_assoc)
  qed
qed

lemma initializeMonorepo_phases:
  "initializeMonorepo E appName w =
     io_bind (steps [init_root appName, init_package_json E appName, install_types_node E,
                     create_turbo_json E, init_typescript_config E, init_docker_dev appName,
                     init_gitignore_and_install E])
       (\<lambda>_. io_bind (init_db_package E)
          (\<lambda>_. steps [init_queue_package E,
                       emit (ConsoleLog (''Monorepo '' @ appName @ '' initialized successfully!''))])) w"
proof -
  have "initializeMonorepo E appName w =
          steps ([init_root appName, init_package_json E appName, install_types_node E,
                  create_turbo_json E, init_typescript_config E, init_docker_dev appName,
                  init_gitignore_and_install E]
                 @ [init_db_package E, init_queue_package E,
                    emit (ConsoleLog (''Monorepo '' @ appName @ '' initialized successfully!''))]) w"
    by (simp add: initializeMonorepo_def)
  then show ?thesis unfolding steps_append by simp
qed

text \<open>The events of a run in three parts: what comes before the units, the
  data-access unit, the task-queue unit.\<close>

lemma initializeMonorepo_events:
  assumes "resolve (cwd w) appName = Inr root"
  shows "\<exists>t0 tD tQ.
           init_events E appName w = t0 @ tD @ tQ
           \<and> (\<forall>e \<in> set t0. \<not> in_unit root ''db'' e \<and> \<not> in_unit root ''queue'' e)
           \<and> (\<forall>e \<in> set tD. \<not> in_unit root ''queue'' e)
           \<and> (\<forall>e \<in> set tQ. \<not> in_unit root ''db'' e)
           \<and> (tQ \<noteq> [] \<longrightarrow> filter (in_unit root ''db'') tD = db_steps root)
           \<and> (fst (initializeMonorepo E appName w) = Inr ()
                \<longrightarrow> filter (in_unit root ''db'') tD = db_steps root
                  \<and> filter (in_unit root ''queue'') tQ = queue_steps root)"
proof -
  let ?pre = "steps [init_root appName, init_package_json E appName, install_types_node E,
                     create_turbo_json E, init_typescript_config E, init_docker_dev appName,
                     init_gitignore_and_install E]"
  let ?Q = "steps [init_queue_package E,
                   emit (ConsoleLog (''Monorepo '' @ appName @ '' initialized successfully!''))]"
  let ?k = "\<lambda>_::unit. io_bind (init_db_package E) (\<lambda>_. ?Q)"
  note run = initializeMonorepo_phases[of E appName w]
  obtain t0 where t0: "trace (snd (?pre w)) = trace w @ t0"
      "\<forall>e \<in> set t0. \<not> in_unit root ''db'' e \<and> \<not> in_unit root ''queue'' e"
      "fst (?pre w) = Inr () \<longrightarrow> cwd (snd (?pre w)) = root"
    using workspace_events[OF assms, of E] by blast
  show ?thesis
  proof (cases rule: io_bind_cases[of ?pre w ?k])
    case (fail e w1)
    then have "init_events E appName w = t0 @ [] @ []" "fst (initializeMonorepo E appName w) \<noteq> Inr ()"
      using t0(1) run by (simp_all add: init_events_def new_events_def)
    then show ?thesis using t0(2) by (intro exI[of _ t0] exI[of _ "[]"]) simp
  next
    case (ok x w1)
    then have c1: "cwd w1 = root" and tr1: "trace w1 = trace w @ t0" using t0 by simp_all
    obtain tD where tD: "cwd (snd (init_db_package E w1)) = root"
        "trace (snd (init_db_package E w1)) = trace w1 @ tD"
        "\<forall>e \<in> set tD. \<not> in_unit root ''queue'' e"
      using emits_inD[OF init_db_package_emits c1, of E] by auto
    show ?thesis
    proof (cases rule: io_bind_cases[of "init_db_package E" w1 "\<lambda>_. ?Q"])
      case (fail e w2)
      then have "init_events E appName w = t0 @ tD @ []" "fst (initializeMonorepo E appName w) \<noteq> Inr ()"
        using tD(2) tr1 ok(2) run by (simp_all add: init_events_def new_events_def)
      then show ?thesis using t0(2) tD(3) by (intro exI[of _ t0] exI[of _ tD] exI[of _ "[]"]) simp
    next
      case ok2: (ok y w2)
      obtain LD where LD: "emits_exactly root (init_db_package E) LD"
          "filter (in_unit root ''db'') LD = db_steps root"
        using init_db_package_exactly[of root E] by blast
      have d: "cwd w2 = root" "trace w2 = trace w1 @ LD"
        using emits_exactlyD[OF LD(1) c1 ok2(1)] by simp_all
      then have tDL: "tD = LD" using tD(2) ok2(1) by simp
      obtain tQ where tQ: "trace (snd (?Q w2)) = trace w2 @ tQ" "\<forall>e \<in> set tQ. \<not> in_unit root ''db'' e"
        using emits_inD[OF queue_phase_emits d(1), of E] by blast
      obtain LQ where LQ: "emits_exactly root ?Q LQ" "filter (in_unit root ''queue'') LQ = queue_steps root"
        using queue_phase_exactly[of root E] by blast
      have res: "initializeMonorepo E appName w = ?Q w2" using run ok(2) ok2(2) by simp
      have ev: "init_events E appName w = t0 @ tD @ tQ"
        using tQ(1) d(2) tr1 tDL by (simp add: init_events_def new_events_def res)
      have succ: "fst (initializeMonorepo E appName w) = Inr () \<longrightarrow> filter (in_unit root ''queue'') tQ = queue_steps root"
      proof
        assume "fst (initializeMonorepo E appName w) = Inr ()"
        then have "?Q w2 = (Inr (), snd (?Q w2))" unfolding res by (metis prod.collapse)
        from emits_exactlyD[OF LQ(1) d(1) this] have "tQ = LQ" using tQ(1) by simp
        then show "filter (in_unit root ''queue'') tQ = queue_steps root" using LQ(2) by simp
      qed
      show ?thesis
        using ev t0(2) tD(3) tQ(2) LD(2) tDL succ
        by (intro exI[of _ t0] exI[of _ tD] exI[of _ tQ]) simp
    qed
  qed
qed

lemma demo_root: "resolve (cwd world0) ''demo'' = Inr [''demo'']"
  by code_simp

lemma demo_init_returns: "fst (initializeMonorepo env_ok ''demo'' world0) = Inr ()"
  by code_simp

text \<open>
  C8. In every run of \<open>initializeMonorepo\<close>, the steps of the data-access unit and of the
  task-queue unit are the events about \<open>packages/db\<close> and \<open>packages/queue\<close> in the new
  workspace. No step of the data-access unit comes after the first step of the
  task-queue unit. When the task-queue unit has begun, the steps of the data-access unit
  before it are all of them, in their order: its directories, its manifest and
  configuration, its source files and its three installs. In a run that returns, the
  steps of the two units are those of the data-access unit followed by those of the
  task-queue unit.
\<close>

theorem db_unit_before_queue_unit:
  assumes "resolve (cwd w) appName = Inr root"
  shows "(\<forall>e \<in> set (dropWhile (\<lambda>e. \<not> in_unit root ''queue'' e) (init_events E appName w)).
            \<not> in_unit root ''db'' e)
         \<and> ((\<exists>e \<in> set (init_events E appName w). in_unit root ''queue'' e) \<longrightarrow>
              filter (in_unit root ''db'')
                (takeWhile (\<lambda>e. \<not> in_unit root ''queue'' e) (init_events E appName w))
              = db_steps root)
         \<and> (fst (initializeMonorepo E appName w) = Inr () \<longrightarrow>
              filter (\<lambda>e. in_unit root ''db'' e \<or> in_unit root ''queue'' e)
                (init_events E appName w)
              = db_steps root @ queue_steps root)"
proof -
  let ?P = "\<lambda>e. \<not> in_unit root ''queue'' e"
  obtain t0 tD tQ where ev: "init_events E appName w = t0 @ tD @ tQ"
    and n0: "\<forall>e \<in> set t0. \<not> in_unit root ''db'' e \<and> \<not> in_unit root ''queue'' e"
    and nD: "\<forall>e \<in> set tD. \<not> in_unit root ''queue'' e"
    and nQ: "\<forall>e \<in> set tQ. \<not> in_unit root ''db'' e"
    and begun: "tQ \<noteq> [] \<longrightarrow> filter (in_unit root ''db'') tD = db_steps root"
    and fin: "fst (initializeMonorepo E appName w) = Inr ()
                \<longrightarrow> filter (in_unit root ''db'') tD = db_steps root
                  \<and> filter (in_unit root ''queue'') tQ = queue_steps root"
    using initializeMonorepo_events[OF assms, of E] by blast
  have pre: "\<And>e. e \<in> set (t0 @ tD) \<Longrightarrow> ?P e" using n0 nD by auto
  have dw: "dropWhile ?P (init_events E appName w) = dropWhile ?P tQ"
    using dropWhile_append2[of "t0 @ tD" ?P tQ] pre by (simp add: ev)
  have tw: "takeWhile ?P (init_events E appName w) = t0 @ tD @ takeWhile ?P tQ"
    using takeWhile_append2[of "t0 @ tD" ?P tQ] pre by (simp add: ev)
  have f0: "filter (in_unit root ''db'') t0 = []" using n0 by (simp add: filter_empty_conv)
  have a: "\<forall>e \<in> set (dropWhile ?P (init_events E appName w)). \<not> in_unit root ''db'' e"
    unfolding dw using nQ set_dropWhileD by fastforce
  have b: "(\<exists>e \<in> set (init_events E appName w). in_unit root ''queue'' e) \<longrightarrow>
             filter (in_unit root ''db'') (takeWhile ?P (init_events E appName w)) = db_steps root"
  proof
    assume "\<exists>e \<in> set (init_events E appName w). in_unit root ''queue'' e"
    then have "tQ \<noteq> []" using pre by (auto simp: ev)
    then have d: "filter (in_unit root ''db'') tD = db_steps root" using begun by simp
    have "filter (in_unit root ''db'') (takeWhile ?P tQ) = []"
      using nQ set_takeWhileD by (fastforce simp: filter_empty_conv)
    then show "filter (in_unit root ''db'') (takeWhile ?P (init_events E appName w)) = db_steps root"
      unfolding tw using f0 d by simp
  qed
  have c: "fst (initializeMonorepo E appName w) = Inr () \<longrightarrow>
             filter (\<lambda>e. in_unit root ''db'' e \<or> in_unit root ''queue'' e) (init_events E appName w)
             = db_steps root @ queue_steps root"
  proof
    assume "fst (initializeMonorepo E appName w) = Inr ()"
    then have d: "filter (in_unit root ''db'') tD = db_steps root"
      and q: "filter (in_unit root ''queue'') tQ = queue_steps root"
      using fin by simp_all
    have 0: "filter (\<lambda>e. in_unit root ''db'' e \<or> in_unit root ''queue'' e) t0 = []"
      using n0 by (simp add: filter_empty_conv)
    have 1: "filter (\<lambda>e. in_unit root ''db'' e \<or> in_unit root ''queue'' e) tD
             = filter (in_unit root ''db'') tD"
      using nD by (intro filter_cong) auto
    have 2: "filter (\<lambda>e. in_unit root ''db'' e \<or> in_unit root ''queue'' e) tQ
             = filter (in_unit root ''queue'') tQ"
      using nQ by (intro filter_cong) auto
    show "filter (\<lambda>e. in_unit root ''db'' e \<or> in_unit root ''queue'' e) (init_events E appName w)
          = db_steps root @ queue_steps root"
      by (simp add: ev 0 1 2 d q)
  qed
  show ?thesis using a b c by blast
qed

theorem db_unit_before_queue_unit_witness:
  "resolve (cwd world0) ''demo'' = Inr [''demo'']
   \<and> fst (initializeMonorepo env_ok ''demo'' world0) = Inr ()
   \<and> filter (\<lambda>e. in_unit [''demo''] ''db'' e \<or> in_unit [''demo''] ''queue'' e)
        (init_events env_ok ''demo'' world0)
      = db_steps [''demo''] @ queue_steps [''demo'']"
  using db_unit_before_queue_unit[OF demo_root, of env_ok] demo_root demo_init_returns
  by blast

section \<open>The last segment of a joined path\<close>












section \<open>What a run that returns has left in the files\<close>









lemma hoare_weaken: "hoare (in_dir C (\<lambda>_. True)) m Q \<Longrightarrow> hoare (in_dir C I) m Q"
  unfolding hoare_def in_dir_def by blast







section \<open>The Node.js app\<close>



lemma file_names_differ:
  "p0 @ [''package.json''] \<noteq> q0 @ [''tsup.config.ts'']"
  "p0 @ [''package.json''] \<noteq> q0 @ [''tsconfig.json'']"
  "p0 @ [''package.json''] \<noteq> q0 @ [''index.ts'']"
  by simp_all










section \<open>The files of a new workspace\<close>

























end
